theory Spec2Isabelle
  imports Main "HOL-Library.Monad_Syntax"
begin

section \<open>The table: \<^verbatim>\<open>absl::flat_hash_map<TensorKey, Tensor>\<close>\<close>

text \<open>
  The hash map of \<^verbatim>\<open>tensor_map.h\<close> is an association list whose order stands for the
  iteration order of the table (which the container leaves unspecified). The key type
  \<open>'k\<close> is \<^verbatim>\<open>TensorKey\<close>, the value type \<open>'v\<close> is \<^verbatim>\<open>Tensor\<close>; both are opaque.
  An iterator is a position in the list, \<^verbatim>\<open>end()\<close> is the length of the list.
\<close>

type_synonym ('k, 'v) flat_hash_map = "('k \<times> 'v) list"

fun fhm_find :: "'k \<Rightarrow> ('k, 'v) flat_hash_map \<Rightarrow> nat" where
  "fhm_find key [] = 0"
| "fhm_find key (e # es) = (if fst e = key then 0 else Suc (fhm_find key es))"

definition fhm_try_emplace ::
  "'k \<Rightarrow> 'v \<Rightarrow> ('k, 'v) flat_hash_map \<Rightarrow> (nat \<times> bool) \<times> ('k, 'v) flat_hash_map" where
  "fhm_try_emplace key val vs =
     (let it = fhm_find key vs
      in if it < length vs then ((it, False), vs)
         else ((length vs, True), vs @ [(key, val)]))"

definition fhm_erase :: "'k \<Rightarrow> ('k, 'v) flat_hash_map \<Rightarrow> nat \<times> ('k, 'v) flat_hash_map" where
  "fhm_erase key vs =
     (let it = fhm_find key vs
      in if it < length vs then (1, take it vs @ drop (Suc it) vs) else (0, vs))"

section \<open>Objects and storage blocks\<close>

text \<open>
  \<^verbatim>\<open>class Tensors : public core::RefCounted { flat_hash_map<TensorKey,Tensor> values_; }\<close>
  and the four data members of \<^verbatim>\<open>class TensorMap\<close>. The pointer \<^verbatim>\<open>tensors_\<close> is an
  address of a storage block, \<open>None\<close> is \<^verbatim>\<open>nullptr\<close>. \<^verbatim>\<open>PartialTensorShape\<close> is \<open>'s\<close>
  and \<^verbatim>\<open>DataType\<close> is \<open>'d\<close>; no operation of the class computes with
  \<^verbatim>\<open>max_num_elements\<close>, so the C \<^verbatim>\<open>int\<close> is an \<open>int\<close>.
  The members \<^verbatim>\<open>ref_\<close>, \<^verbatim>\<open>values_\<close> and \<^verbatim>\<open>tensors_\<close> are the fields \<open>ref_cnt\<close>,
  \<open>values_tbl\<close> and \<open>tensors_ptr\<close> (a name cannot end in an underscore here).
\<close>

record ('k, 'v) Tensors =
  ref_cnt :: int
  values_tbl :: "('k, 'v) flat_hash_map"

record ('s, 'd) TensorMap =
  element_shape :: 's
  element_dtype :: 'd
  max_num_elements :: int
  tensors_ptr :: "nat option"

text \<open>
  The store. \<open>objs\<close> holds the \<^verbatim>\<open>TensorMap\<close> objects, indexed by their address
  (\<^verbatim>\<open>this\<close>); an entry is \<open>None\<close> once the object is destroyed. \<open>heap\<close> holds the
  \<^verbatim>\<open>Tensors\<close> blocks made by \<^verbatim>\<open>new Tensors\<close>, indexed by their address; an entry is
  \<open>None\<close> once the block is deleted, and addresses are not reused. \<open>deleted\<close> logs
  every \<^verbatim>\<open>delete\<close>, most recent first.
\<close>

record ('s, 'd, 'k, 'v) state =
  objs :: "('s, 'd) TensorMap option list"
  heap :: "('k, 'v) Tensors option list"
  deleted :: "nat list"

definition init :: "('s, 'd, 'k, 'v) state" where
  "init = \<lparr>objs = [], heap = [], deleted = []\<rparr>"

definition obj_at :: "('s, 'd, 'k, 'v) state \<Rightarrow> nat \<Rightarrow> ('s, 'd) TensorMap option" where
  "obj_at s i = (if i < length (objs s) then objs s ! i else None)"

definition block_at :: "('s, 'd, 'k, 'v) state \<Rightarrow> nat \<Rightarrow> ('k, 'v) Tensors option" where
  "block_at s p = (if p < length (heap s) then heap s ! p else None)"

text \<open>
  Every function below returns \<open>None\<close> where the C++ has undefined behaviour: a call on
  a destroyed object, a dereference of a null or dangling \<^verbatim>\<open>tensors_\<close>, a dereference
  of \<^verbatim>\<open>end()\<close>.
\<close>

subsection \<open>\<^verbatim>\<open>core::RefCounted\<close>\<close>

text \<open>
  Modelled from the spec: \<^verbatim>\<open>core::RefCounted\<close> (\<^verbatim>\<open>lib/core/refcount.h\<close>) is not part of
  the sources at hand. The spec gives a new block the count 1, has a copy increment the
  count by 1, has a release decrement it and free the block only when it reaches zero,
  and has the exclusive-ownership query report \<open>refcount == 1\<close>.
\<close>

text \<open>Modelled from the spec: a new block is empty and has the count 1.\<close>

definition new_Tensors :: "('s, 'd, 'k, 'v) state \<Rightarrow> nat \<times> ('s, 'd, 'k, 'v) state" where
  "new_Tensors s = (length (heap s), s\<lparr>heap := heap s @ [Some \<lparr>ref_cnt = 1, values_tbl = []\<rparr>]\<rparr>)"

text \<open>Modelled from the spec: a further reference increments the count by 1.\<close>

definition Ref :: "nat \<Rightarrow> ('s, 'd, 'k, 'v) state \<Rightarrow> ('s, 'd, 'k, 'v) state option" where
  "Ref p s = do {
     b \<leftarrow> block_at s p;
     Some (s\<lparr>heap := (heap s)[p := Some (b\<lparr>ref_cnt := ref_cnt b + 1\<rparr>)]\<rparr>)
   }"

text \<open>
  Modelled from the spec: a release decrements the count and frees the block only when
  the count reaches zero.
\<close>

definition Unref :: "nat \<Rightarrow> ('s, 'd, 'k, 'v) state \<Rightarrow> ('s, 'd, 'k, 'v) state option" where
  "Unref p s = do {
     b \<leftarrow> block_at s p;
     if ref_cnt b - 1 = 0
     then Some (s\<lparr>heap := (heap s)[p := None], deleted := p # deleted s\<rparr>)
     else Some (s\<lparr>heap := (heap s)[p := Some (b\<lparr>ref_cnt := ref_cnt b - 1\<rparr>)]\<rparr>)
   }"

text \<open>Modelled from the spec: the exclusive-ownership query is \<open>refcount == 1\<close>.\<close>

definition Tensors_RefCountIsOne :: "nat \<Rightarrow> ('s, 'd, 'k, 'v) state \<Rightarrow> bool option" where
  "Tensors_RefCountIsOne p s = do { b \<leftarrow> block_at s p; Some (ref_cnt b = 1) }"

subsection \<open>Constructors, assignment, destructor\<close>

text \<open>
  \<^verbatim>\<open>TensorMap() : tensors_(new Tensors) {}\<close>. The default member initialisers leave
  \<^verbatim>\<open>PartialTensorShape()\<close> in \<^verbatim>\<open>element_shape\<close> and an indeterminate \<^verbatim>\<open>DataType\<close> in
  \<^verbatim>\<open>element_dtype\<close>; both are the parameters \<open>sh0\<close> and \<open>dt0\<close>. The new object gets
  the next free object address, which is returned.
\<close>

definition TensorMap_ctor ::
  "'s \<Rightarrow> 'd \<Rightarrow> ('s, 'd, 'k, 'v) state \<Rightarrow> nat \<times> ('s, 'd, 'k, 'v) state" where
  "TensorMap_ctor sh0 dt0 s =
     (let (p, s1) = new_Tensors s;
          this = length (objs s1)
      in (this, s1\<lparr>objs := objs s1 @
            [Some \<lparr>element_shape = sh0, element_dtype = dt0, max_num_elements = - 1,
                   tensors_ptr = Some p\<rparr>]\<rparr>))"

text \<open>\<^verbatim>\<open>TensorMap(const TensorMap& other)\<close>: the fields are copied, then \<^verbatim>\<open>tensors_->Ref()\<close>.\<close>

definition TensorMap_copy_ctor ::
  "nat \<Rightarrow> ('s, 'd, 'k, 'v) state \<Rightarrow> (nat \<times> ('s, 'd, 'k, 'v) state) option" where
  "TensorMap_copy_ctor other s = do {
     ot \<leftarrow> obj_at s other;
     let this = length (objs s);
     let s1 = s\<lparr>objs := objs s @
            [Some \<lparr>element_shape = element_shape ot, element_dtype = element_dtype ot,
                   max_num_elements = max_num_elements ot, tensors_ptr = tensors_ptr ot\<rparr>]\<rparr>;
     p \<leftarrow> tensors_ptr ot;
     s2 \<leftarrow> Ref p s1;
     Some (this, s2)
   }"

text \<open>
  \<^verbatim>\<open>TensorMap(TensorMap&& rhs)\<close>: the pointer is taken over and \<^verbatim>\<open>rhs.tensors_\<close> is set
  to \<^verbatim>\<open>nullptr\<close>. \<open>residue\<close> is what \<^verbatim>\<open>std::move\<close> leaves in \<^verbatim>\<open>rhs.element_shape\<close>.
\<close>

definition TensorMap_move_ctor ::
  "'s \<Rightarrow> nat \<Rightarrow> ('s, 'd, 'k, 'v) state \<Rightarrow> (nat \<times> ('s, 'd, 'k, 'v) state) option" where
  "TensorMap_move_ctor residue rhs s = do {
     r \<leftarrow> obj_at s rhs;
     let this = length (objs s);
     let new = \<lparr>element_shape = element_shape r, element_dtype = element_dtype r,
                max_num_elements = max_num_elements r, tensors_ptr = tensors_ptr r\<rparr>;
     Some (this, s\<lparr>objs := (objs s)[rhs := Some (r\<lparr>element_shape := residue,
                                                   tensors_ptr := None\<rparr>)] @ [Some new]\<rparr>)
   }"

text \<open>\<^verbatim>\<open>TensorMap& operator=(const TensorMap& rhs)\<close>.\<close>

definition copy_assign ::
  "nat \<Rightarrow> nat \<Rightarrow> ('s, 'd, 'k, 'v) state \<Rightarrow> ('s, 'd, 'k, 'v) state option" where
  "copy_assign this rhs s = do {
     t \<leftarrow> obj_at s this;
     r \<leftarrow> obj_at s rhs;
     if this = rhs then Some s
     else do {
       let t1 = t\<lparr>element_shape := element_shape r, element_dtype := element_dtype r,
                  max_num_elements := max_num_elements r\<rparr>;
       p \<leftarrow> tensors_ptr t1;
       s1 \<leftarrow> Unref p s;
       let t2 = t1\<lparr>tensors_ptr := tensors_ptr r\<rparr>;
       q \<leftarrow> tensors_ptr t2;
       s2 \<leftarrow> Ref q s1;
       Some (s2\<lparr>objs := (objs s2)[this := Some t2]\<rparr>)
     }
   }"

text \<open>\<^verbatim>\<open>TensorMap& operator=(TensorMap&& rhs)\<close>: the fields are assigned, the pointers swapped.\<close>

definition move_assign ::
  "nat \<Rightarrow> nat \<Rightarrow> ('s, 'd, 'k, 'v) state \<Rightarrow> ('s, 'd, 'k, 'v) state option" where
  "move_assign this rhs s = do {
     t \<leftarrow> obj_at s this;
     r \<leftarrow> obj_at s rhs;
     if this = rhs then Some s
     else do {
       let t1 = t\<lparr>element_shape := element_shape r, element_dtype := element_dtype r,
                  max_num_elements := max_num_elements r\<rparr>;
       Some (s\<lparr>objs := (objs s)[this := Some (t1\<lparr>tensors_ptr := tensors_ptr r\<rparr>),
                                 rhs := Some (r\<lparr>tensors_ptr := tensors_ptr t1\<rparr>)]\<rparr>)
     }
   }"

text \<open>
  Modelled from the spec: \<^verbatim>\<open>~TensorMap()\<close> is declared in \<^verbatim>\<open>tensor_map.h\<close> and defined
  elsewhere. The spec has destruction release the storage reference (decrement, free the
  block only when the count reaches zero), and has a moved-from handle, which references
  no storage, destroyed without a second free.
\<close>

definition TensorMap_dtor ::
  "nat \<Rightarrow> ('s, 'd, 'k, 'v) state \<Rightarrow> ('s, 'd, 'k, 'v) state option" where
  "TensorMap_dtor this s = do {
     t \<leftarrow> obj_at s this;
     s1 \<leftarrow> (case tensors_ptr t of None \<Rightarrow> Some s | Some p \<Rightarrow> Unref p s);
     Some (s1\<lparr>objs := (objs s1)[this := None]\<rparr>)
   }"

subsection \<open>Table operations\<close>

text \<open>
  \<^verbatim>\<open>tensors()\<close>, that is \<^verbatim>\<open>tensors_->values_\<close>: the address of the block and the block.
  \<open>store_values\<close> writes a table back into its block.
\<close>

definition tensors ::
  "nat \<Rightarrow> ('s, 'd, 'k, 'v) state \<Rightarrow> (nat \<times> ('k, 'v) Tensors) option" where
  "tensors this s = do {
     t \<leftarrow> obj_at s this;
     p \<leftarrow> tensors_ptr t;
     b \<leftarrow> block_at s p;
     Some (p, b)
   }"

definition store_values ::
  "nat \<Rightarrow> ('k, 'v) Tensors \<Rightarrow> ('k, 'v) flat_hash_map \<Rightarrow> ('s, 'd, 'k, 'v) state
     \<Rightarrow> ('s, 'd, 'k, 'v) state" where
  "store_values p b vs s = s\<lparr>heap := (heap s)[p := Some (b\<lparr>values_tbl := vs\<rparr>)]\<rparr>"

text \<open>
  A \<^verbatim>\<open>Tensor&\<close> into a table is the address of the block and the position of the slot.
\<close>

type_synonym Tensor_ref = "nat \<times> nat"

definition read_ref :: "Tensor_ref \<Rightarrow> ('s, 'd, 'k, 'v) state \<Rightarrow> 'v option" where
  "read_ref r s = do {
     b \<leftarrow> block_at s (fst r);
     if snd r < length (values_tbl b) then Some (snd (values_tbl b ! snd r)) else None
   }"

definition write_ref ::
  "Tensor_ref \<Rightarrow> 'v \<Rightarrow> ('s, 'd, 'k, 'v) state \<Rightarrow> ('s, 'd, 'k, 'v) state option" where
  "write_ref r v s = do {
     b \<leftarrow> block_at s (fst r);
     if snd r < length (values_tbl b)
     then Some (store_values (fst r) b
                  ((values_tbl b)[snd r := (fst (values_tbl b ! snd r), v)]) s)
     else None
   }"

text \<open>\<^verbatim>\<open>bool insert(const TensorKey& key, const Tensor& value)\<close>.\<close>

definition insert_tm ::
  "nat \<Rightarrow> 'k \<Rightarrow> 'v \<Rightarrow> ('s, 'd, 'k, 'v) state \<Rightarrow> (bool \<times> ('s, 'd, 'k, 'v) state) option" where
  "insert_tm this key val s = do {
     (p, b) \<leftarrow> tensors this s;
     let (r, vs) = fhm_try_emplace key val (values_tbl b);
     Some (snd r, store_values p b vs s)
   }"

text \<open>\<^verbatim>\<open>iterator find(TensorKey key)\<close>: the position of the key, or \<^verbatim>\<open>end()\<close>.\<close>

definition find_tm :: "nat \<Rightarrow> 'k \<Rightarrow> ('s, 'd, 'k, 'v) state \<Rightarrow> nat option" where
  "find_tm this key s = do {
     (p, b) \<leftarrow> tensors this s;
     Some (fhm_find key (values_tbl b))
   }"

text \<open>\<^verbatim>\<open>Tensor& lookup(TensorKey key)\<close>: \<^verbatim>\<open>find(key)->second\<close>, undefined at \<^verbatim>\<open>end()\<close>.\<close>

definition lookup :: "nat \<Rightarrow> 'k \<Rightarrow> ('s, 'd, 'k, 'v) state \<Rightarrow> Tensor_ref option" where
  "lookup this key s = do {
     (p, b) \<leftarrow> tensors this s;
     let it = fhm_find key (values_tbl b);
     if it < length (values_tbl b) then Some (p, it) else None
   }"

text \<open>
  \<^verbatim>\<open>Tensor& operator[](TensorKey& k)\<close>: \<^verbatim>\<open>tensors_->values_[k]\<close>, which emplaces a
  default-constructed \<^verbatim>\<open>Tensor()\<close>, the parameter \<open>dflt\<close>, when the key is absent.
\<close>

definition subscript ::
  "'v \<Rightarrow> nat \<Rightarrow> 'k \<Rightarrow> ('s, 'd, 'k, 'v) state
     \<Rightarrow> (Tensor_ref \<times> ('s, 'd, 'k, 'v) state) option" where
  "subscript dflt this k s = do {
     (p, b) \<leftarrow> tensors this s;
     let (r, vs) = fhm_try_emplace k dflt (values_tbl b);
     Some ((p, fst r), store_values p b vs s)
   }"

text \<open>\<^verbatim>\<open>bool replace(const TensorKey& k, const Tensor& v)\<close>: \<^verbatim>\<open>tensors_->values_[k] = v\<close>.\<close>

definition replace ::
  "'v \<Rightarrow> nat \<Rightarrow> 'k \<Rightarrow> 'v \<Rightarrow> ('s, 'd, 'k, 'v) state
     \<Rightarrow> (bool \<times> ('s, 'd, 'k, 'v) state) option" where
  "replace dflt this k v s = do {
     (r, s1) \<leftarrow> subscript dflt this k s;
     s2 \<leftarrow> write_ref r v s1;
     Some (True, s2)
   }"

text \<open>\<^verbatim>\<open>size_t erase(TensorKey key)\<close>.\<close>

definition erase ::
  "nat \<Rightarrow> 'k \<Rightarrow> ('s, 'd, 'k, 'v) state \<Rightarrow> (nat \<times> ('s, 'd, 'k, 'v) state) option" where
  "erase this key s = do {
     (p, b) \<leftarrow> tensors this s;
     let (n, vs) = fhm_erase key (values_tbl b);
     Some (n, store_values p b vs s)
   }"

text \<open>\<^verbatim>\<open>size_t size()\<close>.\<close>

definition size_tm :: "nat \<Rightarrow> ('s, 'd, 'k, 'v) state \<Rightarrow> nat option" where
  "size_tm this s = do {
     (p, b) \<leftarrow> tensors this s;
     Some (length (values_tbl b))
   }"

text \<open>
  \<^verbatim>\<open>std::vector<Tensor> keys()\<close>. The vector is constructed with
  \<^verbatim>\<open>tensors_->values_.size()\<close> default-constructed elements (\<open>dflt\<close> is \<^verbatim>\<open>Tensor()\<close>),
  and the loop appends \<^verbatim>\<open>(Tensor)it->first\<close> for every entry; \<open>cast\<close> is the
  conversion of a \<^verbatim>\<open>TensorKey\<close> to its base class \<^verbatim>\<open>Tensor\<close>.
\<close>

fun keys_loop :: "('k \<Rightarrow> 'v) \<Rightarrow> ('k, 'v) flat_hash_map \<Rightarrow> 'v list \<Rightarrow> 'v list" where
  "keys_loop cast [] ks = ks"
| "keys_loop cast (e # es) ks = keys_loop cast es (ks @ [cast (fst e)])"

definition keys ::
  "'v \<Rightarrow> ('k \<Rightarrow> 'v) \<Rightarrow> nat \<Rightarrow> ('s, 'd, 'k, 'v) state \<Rightarrow> 'v list option" where
  "keys dflt cast this s = do {
     (p, b) \<leftarrow> tensors this s;
     let ks = replicate (length (values_tbl b)) dflt;
     Some (keys_loop cast (values_tbl b) ks)
   }"

text \<open>\<^verbatim>\<open>bool RefCountIsOne() const\<close>: \<^verbatim>\<open>tensors_->RefCountIsOne()\<close>.\<close>

definition RefCountIsOne :: "nat \<Rightarrow> ('s, 'd, 'k, 'v) state \<Rightarrow> bool option" where
  "RefCountIsOne this s = do {
     t \<leftarrow> obj_at s this;
     p \<leftarrow> tensors_ptr t;
     Tensors_RefCountIsOne p s
   }"

subsection \<open>\<^verbatim>\<open>Copy\<close> and \<^verbatim>\<open>Zeros\<close>\<close>

text \<open>
  \<^verbatim>\<open>TensorMap Copy() const\<close>: \<^verbatim>\<open>TensorMap out;\<close>, the three header assignments, then
  \<^verbatim>\<open>out.tensors_->values_ = tensors_->values_\<close>. The result object \<open>out\<close> is returned
  by its address.
\<close>

definition Copy ::
  "'s \<Rightarrow> 'd \<Rightarrow> nat \<Rightarrow> ('s, 'd, 'k, 'v) state \<Rightarrow> (nat \<times> ('s, 'd, 'k, 'v) state) option" where
  "Copy sh0 dt0 this s = do {
     t \<leftarrow> obj_at s this;
     let (out, s1) = TensorMap_ctor sh0 dt0 s;
     ob \<leftarrow> obj_at s1 out;
     let s2 = s1\<lparr>objs := (objs s1)[out := Some (ob\<lparr>element_shape := element_shape t,
                    element_dtype := element_dtype t,
                    max_num_elements := max_num_elements t\<rparr>)]\<rparr>;
     (p, b) \<leftarrow> tensors this s2;
     (q, c) \<leftarrow> tensors out s2;
     Some (out, store_values q c (values_tbl b) s2)
   }"

text \<open>
  \<^verbatim>\<open>TensorMap Zeros() const\<close>: as \<^verbatim>\<open>Copy\<close>, but the loop runs over the entries of this
  table and does \<^verbatim>\<open>out.tensors_->values_.try_emplace(it->first, Tensor(0))\<close>; \<open>zero\<close>
  is \<^verbatim>\<open>Tensor(0)\<close>.
\<close>

fun Zeros_loop ::
  "'v \<Rightarrow> ('k, 'v) flat_hash_map \<Rightarrow> ('k, 'v) flat_hash_map \<Rightarrow> ('k, 'v) flat_hash_map" where
  "Zeros_loop zero [] out = out"
| "Zeros_loop zero (e # es) out = Zeros_loop zero es (snd (fhm_try_emplace (fst e) zero out))"

definition Zeros ::
  "'s \<Rightarrow> 'd \<Rightarrow> 'v \<Rightarrow> nat \<Rightarrow> ('s, 'd, 'k, 'v) state
     \<Rightarrow> (nat \<times> ('s, 'd, 'k, 'v) state) option" where
  "Zeros sh0 dt0 zero this s = do {
     t \<leftarrow> obj_at s this;
     let (out, s1) = TensorMap_ctor sh0 dt0 s;
     ob \<leftarrow> obj_at s1 out;
     let s2 = s1\<lparr>objs := (objs s1)[out := Some (ob\<lparr>element_shape := element_shape t,
                    element_dtype := element_dtype t,
                    max_num_elements := max_num_elements t\<rparr>)]\<rparr>;
     (p, b) \<leftarrow> tensors this s2;
     (q, c) \<leftarrow> tensors out s2;
     Some (out, store_values q c (Zeros_loop zero (values_tbl b) (values_tbl c)) s2)
   }"

subsection \<open>\<^verbatim>\<open>Encode\<close> and \<^verbatim>\<open>Decode\<close>\<close>

text \<open>
  Modelled from the spec: \<^verbatim>\<open>Encode\<close> and \<^verbatim>\<open>Decode\<close> are declared in \<^verbatim>\<open>tensor_map.h\<close>
  and defined elsewhere, and \<^verbatim>\<open>VariantTensorData\<close> is not at hand. The spec has
  \<^verbatim>\<open>Encode\<close> externalise, in a stable order, the header fields (shape descriptor, type
  tag, max size) and the full table contents (every key and value) as a sequence of named
  sub-payloads. It has \<^verbatim>\<open>Decode\<close> report failure for a payload that is structurally
  malformed, whose entry count does not match the entries present, or one of whose
  per-entry sub-payloads is not a valid key/value pair; on success \<^verbatim>\<open>Decode\<close>
  overwrites the header and the table of the destination in full, whatever they held.
  The names of the sub-payloads are chosen here. The spec leaves the destination
  unspecified after a failed \<^verbatim>\<open>Decode\<close>; the model leaves it untouched.
\<close>

datatype ('s, 'd, 'k, 'v) sub_payload =
    Shape 's
  | Dtype 'd
  | MaxNumElements int
  | NumEntries nat
  | Entry 'k 'v

type_synonym ('s, 'd, 'k, 'v) VariantTensorData = "(string \<times> ('s, 'd, 'k, 'v) sub_payload) list"

definition encode_entry :: "'k \<times> 'v \<Rightarrow> string \<times> ('s, 'd, 'k, 'v) sub_payload" where
  "encode_entry e = (''entry'', Entry (fst e) (snd e))"

text \<open>
  Modelled from the spec: \<^verbatim>\<open>Encode\<close> writes the three header fields, the number of
  entries and one sub-payload for every entry, in the iteration order of the table.
\<close>

definition Encode ::
  "nat \<Rightarrow> ('s, 'd, 'k, 'v) state \<Rightarrow> ('s, 'd, 'k, 'v) VariantTensorData option" where
  "Encode this s = do {
     t \<leftarrow> obj_at s this;
     (p, b) \<leftarrow> tensors this s;
     Some ([(''element_shape'', Shape (element_shape t)),
            (''element_dtype'', Dtype (element_dtype t)),
            (''max_num_elements'', MaxNumElements (max_num_elements t)),
            (''num_entries'', NumEntries (length (values_tbl b)))]
           @ map encode_entry (values_tbl b))
   }"

definition named :: "string \<Rightarrow> string \<times> 'a \<Rightarrow> 'a option" where
  "named n e = (if fst e = n then Some (snd e) else None)"

fun get_Shape :: "('s, 'd, 'k, 'v) sub_payload \<Rightarrow> 's option" where
  "get_Shape (Shape sh) = Some sh"
| "get_Shape _ = None"

fun get_Dtype :: "('s, 'd, 'k, 'v) sub_payload \<Rightarrow> 'd option" where
  "get_Dtype (Dtype dt) = Some dt"
| "get_Dtype _ = None"

fun get_MaxNumElements :: "('s, 'd, 'k, 'v) sub_payload \<Rightarrow> int option" where
  "get_MaxNumElements (MaxNumElements m) = Some m"
| "get_MaxNumElements _ = None"

fun get_NumEntries :: "('s, 'd, 'k, 'v) sub_payload \<Rightarrow> nat option" where
  "get_NumEntries (NumEntries n) = Some n"
| "get_NumEntries _ = None"

fun get_Entry :: "('s, 'd, 'k, 'v) sub_payload \<Rightarrow> ('k \<times> 'v) option" where
  "get_Entry (Entry k v) = Some (k, v)"
| "get_Entry _ = None"

fun decode_entries :: "('s, 'd, 'k, 'v) VariantTensorData \<Rightarrow> ('k \<times> 'v) list option" where
  "decode_entries [] = Some []"
| "decode_entries (e # es) = do {
     kv \<leftarrow> named ''entry'' e \<bind> get_Entry;
     kvs \<leftarrow> decode_entries es;
     Some (kv # kvs)
   }"

definition decode_payload ::
  "('s, 'd, 'k, 'v) VariantTensorData \<Rightarrow> ('s \<times> 'd \<times> int \<times> ('k \<times> 'v) list) option" where
  "decode_payload data =
     (case data of
        e1 # e2 # e3 # e4 # es \<Rightarrow> do {
          sh \<leftarrow> named ''element_shape'' e1 \<bind> get_Shape;
          dt \<leftarrow> named ''element_dtype'' e2 \<bind> get_Dtype;
          m \<leftarrow> named ''max_num_elements'' e3 \<bind> get_MaxNumElements;
          n \<leftarrow> named ''num_entries'' e4 \<bind> get_NumEntries;
          kvs \<leftarrow> (if n = length es then decode_entries es else None);
          Some (sh, dt, m, kvs)
        }
      | _ \<Rightarrow> None)"

fun Decode_loop ::
  "('k \<times> 'v) list \<Rightarrow> ('k, 'v) flat_hash_map \<Rightarrow> ('k, 'v) flat_hash_map" where
  "Decode_loop [] out = out"
| "Decode_loop (e # es) out = Decode_loop es (snd (fhm_try_emplace (fst e) (snd e) out))"

text \<open>
  Modelled from the spec: \<^verbatim>\<open>Decode\<close> returns false for a payload that does not decode;
  otherwise it overwrites the header fields and rebuilds the table from the entries,
  starting from the empty table, and returns true.
\<close>

definition Decode ::
  "nat \<Rightarrow> ('s, 'd, 'k, 'v) VariantTensorData \<Rightarrow> ('s, 'd, 'k, 'v) state
     \<Rightarrow> (bool \<times> ('s, 'd, 'k, 'v) state) option" where
  "Decode this data s = do {
     t \<leftarrow> obj_at s this;
     (p, b) \<leftarrow> tensors this s;
     (case decode_payload data of
        None \<Rightarrow> Some (False, s)
      | Some (sh, dt, m, kvs) \<Rightarrow>
          Some (True,
            store_values p b (Decode_loop kvs [])
              (s\<lparr>objs := (objs s)[this := Some (t\<lparr>element_shape := sh, element_dtype := dt,
                                                   max_num_elements := m\<rparr>)]\<rparr>)))
   }"

subsection \<open>Observations and the invariant of the store\<close>

text \<open>The value read through \<^verbatim>\<open>lookup(key)\<close>.\<close>

definition lookup_value :: "nat \<Rightarrow> 'k \<Rightarrow> ('s, 'd, 'k, 'v) state \<Rightarrow> 'v option" where
  "lookup_value this key s = do { r \<leftarrow> lookup this key s; read_ref r s }"

text \<open>The reference count of the block behind a handle.\<close>

definition ref_count :: "nat \<Rightarrow> ('s, 'd, 'k, 'v) state \<Rightarrow> int option" where
  "ref_count this s = map_option (\<lambda>pb. ref_cnt (snd pb)) (tensors this s)"

text \<open>
  \<open>insert_seen x y k v s\<close>: \<^verbatim>\<open>x.insert(k, v)\<close> is defined, afterwards the handles
  \<open>x\<close> and \<open>y\<close> see the same block, and when the insertion happened \<open>y.lookup(k)\<close>
  reads \<open>v\<close> (otherwise it reads what it read before).
\<close>

definition insert_seen ::
  "nat \<Rightarrow> nat \<Rightarrow> 'k \<Rightarrow> 'v \<Rightarrow> ('s, 'd, 'k, 'v) state \<Rightarrow> bool" where
  "insert_seen x y k v s =
     (case insert_tm x k v s of
        None \<Rightarrow> False
      | Some (r, s') \<Rightarrow>
          tensors x s' \<noteq> None \<and> tensors y s' = tensors x s' \<and>
          lookup_value y k s' = (if r then Some v else lookup_value y k s) \<and>
          lookup_value x k s' = lookup_value y k s')"

text \<open>
  \<open>unaffected y s res\<close>: the operation with result \<open>res\<close>, run in \<open>s\<close>, is defined
  and leaves the block behind the usable handle \<open>y\<close> as it was: same entries, same
  size, same count.
\<close>

definition unaffected ::
  "nat \<Rightarrow> ('s, 'd, 'k, 'v) state \<Rightarrow> ('r \<times> ('s, 'd, 'k, 'v) state) option \<Rightarrow> bool" where
  "unaffected y s res =
     (case res of
        None \<Rightarrow> False
      | Some (r, s') \<Rightarrow> tensors y s \<noteq> None \<and> tensors y s' = tensors y s)"

text \<open>The three header fields of an object.\<close>

definition header :: "('s, 'd) TensorMap \<Rightarrow> 's \<times> 'd \<times> int" where
  "header t = (element_shape t, element_dtype t, max_num_elements t)"

text \<open>
  An assignment to the public member: \<^verbatim>\<open>m.max_num_elements = n\<close>.
\<close>

definition set_max_num_elements ::
  "nat \<Rightarrow> int \<Rightarrow> ('s, 'd, 'k, 'v) state \<Rightarrow> ('s, 'd, 'k, 'v) state" where
  "set_max_num_elements this n s =
     (case obj_at s this of
        None \<Rightarrow> s
      | Some t \<Rightarrow> s\<lparr>objs := (objs s)[this := Some (t\<lparr>max_num_elements := n\<rparr>)]\<rparr>)"

text \<open>
  \<open>points_to p ob\<close>: the slot \<open>ob\<close> holds a live object whose \<^verbatim>\<open>tensors_\<close> is \<open>p\<close>.
  \<open>refs s p\<close> counts the live objects that reference the block \<open>p\<close>.
\<close>

definition points_to :: "nat \<Rightarrow> ('s, 'd) TensorMap option \<Rightarrow> bool" where
  "points_to p ob = (case ob of None \<Rightarrow> False | Some t \<Rightarrow> tensors_ptr t = Some p)"

definition refs :: "('s, 'd, 'k, 'v) state \<Rightarrow> nat \<Rightarrow> nat" where
  "refs s p = length (filter (points_to p) (objs s))"

text \<open>
  The invariant: a live block is referenced by at least one live object, its count is the
  number of live objects that reference it, it was never deleted, and its keys are
  unique; a deleted block is referenced by no live object and was deleted once; every
  pointer of a live object is an allocated address.
\<close>

definition block_ok :: "('s, 'd, 'k, 'v) state \<Rightarrow> nat \<Rightarrow> bool" where
  "block_ok s p =
     (case heap s ! p of
        None \<Rightarrow> refs s p = 0 \<and> count_list (deleted s) p = 1
      | Some b \<Rightarrow> ref_cnt b = int (refs s p) \<and> 0 < refs s p \<and> count_list (deleted s) p = 0
                 \<and> distinct (map fst (values_tbl b)))"

definition ptr_ok :: "('s, 'd, 'k, 'v) state \<Rightarrow> ('s, 'd) TensorMap option \<Rightarrow> bool" where
  "ptr_ok s ob =
     (case ob of
        None \<Rightarrow> True
      | Some t \<Rightarrow> (case tensors_ptr t of None \<Rightarrow> True | Some p \<Rightarrow> p < length (heap s)))"

definition store_ok :: "('s, 'd, 'k, 'v) state \<Rightarrow> bool" where
  "store_ok s \<longleftrightarrow> (\<forall>p < length (heap s). block_ok s p)
          \<and> (\<forall>ob \<in> set (objs s). ptr_ok s ob)
          \<and> (\<forall>p \<in> set (deleted s). p < length (heap s))"

text \<open>
  The stores a program can reach from the empty store with the operations of the class and
  assignments to \<^verbatim>\<open>max_num_elements\<close>.
\<close>

inductive reachable :: "('s, 'd, 'k, 'v) state \<Rightarrow> bool" where
  r_init: "reachable init"
| r_ctor: "reachable s \<Longrightarrow> reachable (snd (TensorMap_ctor sh0 dt0 s))"
| r_copy_ctor: "reachable s \<Longrightarrow> TensorMap_copy_ctor other s = Some (c, s') \<Longrightarrow> reachable s'"
| r_move_ctor:
    "reachable s \<Longrightarrow> TensorMap_move_ctor residue rhs s = Some (c, s') \<Longrightarrow> reachable s'"
| r_copy_assign: "reachable s \<Longrightarrow> copy_assign this rhs s = Some s' \<Longrightarrow> reachable s'"
| r_move_assign: "reachable s \<Longrightarrow> move_assign this rhs s = Some s' \<Longrightarrow> reachable s'"
| r_dtor: "reachable s \<Longrightarrow> TensorMap_dtor this s = Some s' \<Longrightarrow> reachable s'"
| r_insert: "reachable s \<Longrightarrow> insert_tm this k v s = Some (r, s') \<Longrightarrow> reachable s'"
| r_subscript: "reachable s \<Longrightarrow> subscript dflt this k s = Some (rf, s') \<Longrightarrow> reachable s'"
| r_replace: "reachable s \<Longrightarrow> replace dflt this k v s = Some (r, s') \<Longrightarrow> reachable s'"
| r_erase: "reachable s \<Longrightarrow> erase this k s = Some (n, s') \<Longrightarrow> reachable s'"
| r_Copy: "reachable s \<Longrightarrow> Copy sh0 dt0 this s = Some (c, s') \<Longrightarrow> reachable s'"
| r_Zeros: "reachable s \<Longrightarrow> Zeros sh0 dt0 zero this s = Some (c, s') \<Longrightarrow> reachable s'"
| r_Decode: "reachable s \<Longrightarrow> Decode this data s = Some (r, s') \<Longrightarrow> reachable s'"
| r_set_max: "reachable s \<Longrightarrow> reachable (set_max_num_elements i m s)"

subsection \<open>Example stores\<close>

text \<open>One default-constructed map, with keys and values taken from the naturals.\<close>

definition one_map :: "(unit, unit, nat, nat) state" where
  "one_map = snd (TensorMap_ctor () () init)"

text \<open>Two default-constructed maps: objects 0 and 1 on the blocks 0 and 1.\<close>

definition two_maps :: "(unit, unit, nat, nat) state" where
  "two_maps = snd (TensorMap_ctor () () one_map)"

text \<open>
  A default-constructed map and a copy of it made by the copy constructor: objects 0
  and 1 on block 0.
\<close>

definition shared_maps :: "(unit, unit, nat, nat) state" where
  "shared_maps = (case TensorMap_copy_ctor 0 one_map of Some (c, s) \<Rightarrow> s | None \<Rightarrow> one_map)"

text \<open>
  A default-constructed map after \<^verbatim>\<open>insert(5, 7)\<close> and \<^verbatim>\<open>insert(6, 8)\<close>: object 0 on
  block 0.
\<close>

definition filled_map :: "(unit, unit, nat, nat) state" where
  "filled_map =
     (case insert_tm 0 5 7 one_map of
        None \<Rightarrow> one_map
      | Some (r, s1) \<Rightarrow> (case insert_tm 0 6 8 s1 of None \<Rightarrow> s1 | Some (r', s2) \<Rightarrow> s2))"

text \<open>
  The map with two entries and a second, default-constructed map: objects 0 and 1 on the
  blocks 0 and 1.
\<close>

definition filled_and_empty :: "(unit, unit, nat, nat) state" where
  "filled_and_empty = snd (TensorMap_ctor () () filled_map)"

section \<open>Properties\<close>

subsection \<open>The table\<close>

lemma fhm_find_le: "fhm_find k vs \<le> length vs"
  by (induction vs) auto

lemma fhm_find_lt_iff: "fhm_find k vs < length vs \<longleftrightarrow> k \<in> fst ` set vs"
  by (induction vs) auto

lemma fhm_find_end_iff: "fhm_find k vs = length vs \<longleftrightarrow> k \<notin> fst ` set vs"
  using fhm_find_le [of k vs] fhm_find_lt_iff [of k vs] by auto

lemma fhm_find_fst: "fhm_find k vs < length vs \<Longrightarrow> fst (vs ! fhm_find k vs) = k"
  by (induction vs) auto

lemma fhm_find_map_of:
  "fhm_find k vs < length vs \<Longrightarrow> map_of vs k = Some (snd (vs ! fhm_find k vs))"
  by (induction vs) auto

lemma fhm_find_append:
  "fhm_find k (vs @ ws) = (if k \<in> fst ` set vs then fhm_find k vs else length vs + fhm_find k ws)"
  by (induction vs) auto

lemma block_at_store_values:
  "p < length (heap s) \<Longrightarrow>
   block_at (store_values p b vs s) q = (if q = p then Some (b\<lparr>values_tbl := vs\<rparr>) else block_at s q)"
  by (simp add: block_at_def store_values_def)

lemma obj_at_store_values: "obj_at (store_values p b vs s) i = obj_at s i"
  by (simp add: obj_at_def store_values_def)

lemma store_values_same:
  "block_at s p = Some b \<Longrightarrow> store_values p b (values_tbl b) s = s"
proof -
  assume "block_at s p = Some b"
  then have "(heap s)[p := Some b] = heap s"
    by (auto simp: block_at_def split: if_splits intro: list_update_same_conv [THEN iffD2])
  then show ?thesis by (simp add: store_values_def)
qed

lemma tensorsD:
  "tensors this s = Some (p, b) \<Longrightarrow>
   \<exists>t. obj_at s this = Some t \<and> tensors_ptr t = Some p \<and> block_at s p = Some b \<and> p < length (heap s)"
  by (auto simp: tensors_def block_at_def split: Option.bind_splits if_splits)

lemma tensors_store_values:
  assumes "tensors this s = Some (p, b)"
  shows "tensors this (store_values p b vs s) = Some (p, b\<lparr>values_tbl := vs\<rparr>)"
  using tensorsD [OF assms]
  by (auto simp: tensors_def obj_at_store_values block_at_store_values)

lemma lookup_value_eq:
  assumes "tensors this s = Some (p, b)"
  shows "lookup_value this k s = map_of (values_tbl b) k"
proof (cases "k \<in> fst ` set (values_tbl b)")
  case True
  then have lt: "fhm_find k (values_tbl b) < length (values_tbl b)"
    by (simp add: fhm_find_lt_iff)
  from tensorsD [OF assms] have "block_at s p = Some b" by auto
  with lt assms show ?thesis
    by (simp add: lookup_value_def lookup_def read_ref_def fhm_find_map_of)
next
  case False
  then have "\<not> fhm_find k (values_tbl b) < length (values_tbl b)"
    by (simp add: fhm_find_lt_iff)
  moreover from False have "map_of (values_tbl b) k = None"
    by (simp add: map_of_eq_None_iff)
  ultimately show ?thesis using assms
    by (simp add: lookup_value_def lookup_def)
qed

lemma insert_tm_absent:
  assumes "tensors this s = Some (p, b)" and "k \<notin> fst ` set (values_tbl b)"
  shows "insert_tm this k v s = Some (True, store_values p b (values_tbl b @ [(k, v)]) s)"
  using assms by (simp add: insert_tm_def fhm_try_emplace_def fhm_find_lt_iff)

lemma insert_tm_present:
  assumes "tensors this s = Some (p, b)" and "k \<in> fst ` set (values_tbl b)"
  shows "insert_tm this k v s = Some (False, s)"
  using assms tensorsD [OF assms(1)]
  by (auto simp add: insert_tm_def fhm_try_emplace_def fhm_find_lt_iff store_values_same)

text \<open>
  C5. \<^verbatim>\<open>insert(key, value)\<close> on a usable handle returns whether the key was absent. If
  the key is present the call changes nothing; if it is absent the pair is stored, the
  size grows by one and the other keys keep their values. A second \<^verbatim>\<open>insert\<close> of the
  same key with any value \<open>v2\<close> returns false and changes nothing, so the value stored
  by the first call stays.
\<close>

theorem insert_only_if_absent:
  assumes "tensors this s = Some (p, b)"
  shows "\<exists>s'. insert_tm this k v1 s = Some (k \<notin> fst ` set (values_tbl b), s') \<and>
           (k \<in> fst ` set (values_tbl b) \<longrightarrow> s' = s) \<and>
           (k \<notin> fst ` set (values_tbl b) \<longrightarrow>
              lookup_value this k s' = Some v1 \<and>
              size_tm this s' = Some (Suc (length (values_tbl b))) \<and>
              (\<forall>k'. k' \<noteq> k \<longrightarrow> lookup_value this k' s' = lookup_value this k' s)) \<and>
           insert_tm this k v2 s' = Some (False, s') \<and>
           lookup_value this k s' = (if k \<in> fst ` set (values_tbl b) then lookup_value this k s else Some v1)"
proof (cases "k \<in> fst ` set (values_tbl b)")
  case True
  with assms show ?thesis by (simp add: insert_tm_present)
next
  case False
  let ?s = "store_values p b (values_tbl b @ [(k, v1)]) s"
  have t: "tensors this ?s = Some (p, b\<lparr>values_tbl := values_tbl b @ [(k, v1)]\<rparr>)"
    using assms by (rule tensors_store_values)
  have m: "map_of (values_tbl b) k = None"
    using False by (simp add: map_of_eq_None_iff)
  have "insert_tm this k v2 ?s = Some (False, ?s)"
    using t by (simp add: insert_tm_present)
  moreover have "lookup_value this k ?s = Some v1"
    using m by (simp add: lookup_value_eq [OF t] map_add_def)
  moreover have "size_tm this ?s = Some (Suc (length (values_tbl b)))"
    using t by (simp add: size_tm_def)
  moreover have "\<forall>k'. k' \<noteq> k \<longrightarrow> lookup_value this k' ?s = lookup_value this k' s"
    by (auto simp add: lookup_value_eq [OF t] lookup_value_eq [OF assms] map_add_def split: option.splits)
  ultimately show ?thesis
    using False assms by (simp add: insert_tm_absent)
qed

lemma tensors_one_map: "tensors 0 one_map = Some (0, \<lparr>ref_cnt = 1, values_tbl = []\<rparr>)"
  by (simp add: one_map_def TensorMap_ctor_def new_Tensors_def init_def tensors_def obj_at_def block_at_def)

theorem insert_only_if_absent_witness:
  "tensors 0 one_map = Some (0, \<lparr>ref_cnt = 1, values_tbl = []\<rparr>) \<and>
   (\<exists>s'. insert_tm 0 (5::nat) (7::nat) one_map = Some (True, s') \<and>
      lookup_value 0 5 s' = Some 7 \<and> size_tm 0 s' = Some 1 \<and>
      insert_tm 0 5 (8::nat) s' = Some (False, s'))"
  using insert_only_if_absent [OF tensors_one_map, of 5 7 8] tensors_one_map by auto

subsection \<open>Counting\<close>

lemma count_filter_split:
  assumes "i < length xs"
  shows "length (filter P xs)
           = length (filter P (take i xs @ drop (Suc i) xs)) + (if P (xs ! i) then 1 else 0)"
proof -
  have "filter P xs = filter P (take i xs @ xs ! i # drop (Suc i) xs)"
    using id_take_nth_drop [OF assms] by simp
  then show ?thesis by simp
qed

lemma count_filter_update_split:
  assumes "i < length xs"
  shows "length (filter P (xs[i := y]))
           = length (filter P (take i xs @ drop (Suc i) xs)) + (if P y then 1 else 0)"
  by (simp add: upd_conv_take_nth_drop [OF assms])

lemma count_filter_update:
  "i < length xs \<Longrightarrow>
   length (filter P (xs[i := y])) + (if P (xs ! i) then 1 else 0)
     = length (filter P xs) + (if P y then 1 else 0)"
  by (simp add: count_filter_split [of i xs P] count_filter_update_split [of i xs P y])

lemma others_iff:
  assumes "i < length xs"
  shows "(\<forall>x \<in> set (take i xs @ drop (Suc i) xs). \<not> P x)
           \<longleftrightarrow> (\<forall>j < length xs. j \<noteq> i \<longrightarrow> \<not> P (xs ! j))"
proof
  assume h: "\<forall>x \<in> set (take i xs @ drop (Suc i) xs). \<not> P x"
  show "\<forall>j < length xs. j \<noteq> i \<longrightarrow> \<not> P (xs ! j)"
  proof (intro allI impI)
    fix j assume j: "j < length xs" "j \<noteq> i"
    show "\<not> P (xs ! j)"
    proof (cases "j < i")
      case True
      then have "xs ! j \<in> set (take i xs)"
        using j by (auto simp: in_set_conv_nth intro!: exI [of _ j])
      with h show ?thesis by simp
    next
      case False
      with j have "Suc i \<le> j" by simp
      then have "xs ! j \<in> set (drop (Suc i) xs)"
        using j by (auto simp: in_set_conv_nth intro!: exI [of _ "j - Suc i"])
      with h show ?thesis by simp
    qed
  qed
next
  assume h: "\<forall>j < length xs. j \<noteq> i \<longrightarrow> \<not> P (xs ! j)"
  show "\<forall>x \<in> set (take i xs @ drop (Suc i) xs). \<not> P x"
  proof
    fix x assume "x \<in> set (take i xs @ drop (Suc i) xs)"
    then consider "x \<in> set (take i xs)" | "x \<in> set (drop (Suc i) xs)" by auto
    then show "\<not> P x"
    proof cases
      case 1
      then obtain j where "j < i" "j < length xs" "x = xs ! j"
        by (auto simp: in_set_conv_nth)
      with h show ?thesis by auto
    next
      case 2
      then obtain k where "k < length xs - Suc i" "x = xs ! (Suc i + k)"
        by (auto simp: in_set_conv_nth)
      with h show ?thesis by auto
    qed
  qed
qed

lemma count_filter_one_iff:
  assumes "i < length xs" and "P (xs ! i)"
  shows "length (filter P xs) = 1 \<longleftrightarrow> (\<forall>j < length xs. j \<noteq> i \<longrightarrow> \<not> P (xs ! j))"
proof -
  have "length (filter P xs) = 1 \<longleftrightarrow> filter P (take i xs @ drop (Suc i) xs) = []"
    using assms by (simp add: count_filter_split [OF assms(1), of P])
  also have "\<dots> \<longleftrightarrow> (\<forall>x \<in> set (take i xs @ drop (Suc i) xs). \<not> P x)"
    by (simp only: filter_empty_conv)
  finally show ?thesis by (simp only: others_iff [OF assms(1)])
qed

lemma count_filter_pos: "i < length xs \<Longrightarrow> P (xs ! i) \<Longrightarrow> 0 < length (filter P xs)"
  by (simp add: count_filter_split [of i xs P])

lemma count_filter_two:
  assumes "i < length xs" "j < length xs" "i \<noteq> j" "P (xs ! i)" "P (xs ! j)"
  shows "2 \<le> length (filter P xs)"
proof -
  have "0 < length (filter P xs)" using assms(1,4) by (rule count_filter_pos)
  moreover have "length (filter P xs) \<noteq> 1"
    using count_filter_one_iff [of i xs P] assms by auto
  ultimately show ?thesis by linarith
qed

subsection \<open>The store\<close>

lemma obj_atD: "obj_at s i = Some t \<Longrightarrow> i < length (objs s) \<and> objs s ! i = Some t"
  by (simp add: obj_at_def split: if_splits)

lemma block_atD: "block_at s p = Some b \<Longrightarrow> p < length (heap s) \<and> heap s ! p = Some b"
  by (simp add: block_at_def split: if_splits)

lemma points_to_Some [simp]: "points_to p (Some t) \<longleftrightarrow> tensors_ptr t = Some p"
  by (simp add: points_to_def)

lemma points_to_None [simp]: "\<not> points_to p None"
  by (simp add: points_to_def)

lemma refs_update:
  "i < length (objs s) \<Longrightarrow>
   refs (s\<lparr>objs := (objs s)[i := ob]\<rparr>) x + (if points_to x (objs s ! i) then 1 else 0)
     = refs s x + (if points_to x ob then 1 else 0)"
  by (simp add: refs_def count_filter_update)

lemma refs_append:
  "refs (s\<lparr>objs := objs s @ [ob]\<rparr>) x = refs s x + (if points_to x ob then 1 else 0)"
  by (simp add: refs_def)

lemma refs_pos: "obj_at s i = Some t \<Longrightarrow> tensors_ptr t = Some p \<Longrightarrow> 0 < refs s p"
  unfolding refs_def by (rule count_filter_pos [of i]) (auto dest: obj_atD)

lemma wfI:
  assumes "\<And>p. p < length (heap s) \<Longrightarrow> block_ok s p"
    and "\<And>ob. ob \<in> set (objs s) \<Longrightarrow> ptr_ok s ob"
    and "\<And>p. p \<in> set (deleted s) \<Longrightarrow> p < length (heap s)"
  shows "store_ok s"
  using assms by (simp add: store_ok_def)

lemma wf_block_ok: "store_ok s \<Longrightarrow> p < length (heap s) \<Longrightarrow> block_ok s p"
  by (simp add: store_ok_def)

lemma wf_ptr_ok: "store_ok s \<Longrightarrow> ob \<in> set (objs s) \<Longrightarrow> ptr_ok s ob"
  by (simp add: store_ok_def)

lemma wf_deleted: "store_ok s \<Longrightarrow> p \<in> set (deleted s) \<Longrightarrow> p < length (heap s)"
  by (simp add: store_ok_def)

lemma wf_ptr_lt:
  assumes "store_ok s" "obj_at s i = Some t" "tensors_ptr t = Some p"
  shows "p < length (heap s)"
proof -
  have "Some t \<in> set (objs s)" using obj_atD [OF assms(2)] by (metis nth_mem)
  from wf_ptr_ok [OF assms(1) this] assms(3) show ?thesis by (simp add: ptr_ok_def)
qed

lemma wf_live:
  assumes "store_ok s" "obj_at s i = Some t" "tensors_ptr t = Some p"
  shows "\<exists>b. block_at s p = Some b \<and> ref_cnt b = int (refs s p) \<and> 0 < refs s p
             \<and> count_list (deleted s) p = 0 \<and> distinct (map fst (values_tbl b))"
proof -
  have lt: "p < length (heap s)" using assms by (rule wf_ptr_lt)
  have pos: "0 < refs s p" using assms(2,3) by (rule refs_pos)
  from wf_block_ok [OF assms(1) lt] pos lt show ?thesis
    by (auto simp: block_ok_def block_at_def split: option.splits)
qed

lemma wf_init: "store_ok init"
  by (simp add: store_ok_def init_def)

lemma ptr_ok_heap_length:
  "length (heap s') = length (heap s) \<Longrightarrow> ptr_ok s' ob = ptr_ok s ob"
  by (simp add: ptr_ok_def split: option.splits)

lemma ptr_ok_mono:
  "length (heap s) \<le> length (heap s') \<Longrightarrow> ptr_ok s ob \<Longrightarrow> ptr_ok s' ob"
  by (auto simp: ptr_ok_def split: option.splits)

lemma block_ok_cong:
  "heap s' ! p = heap s ! p \<Longrightarrow> refs s' p = refs s p \<Longrightarrow>
   count_list (deleted s') p = count_list (deleted s) p \<Longrightarrow> block_ok s' p = block_ok s p"
  by (simp add: block_ok_def split: option.splits)

lemma no_points_iff:
  "(\<forall>x. \<not> points_to x ob) \<longleftrightarrow> (case ob of None \<Rightarrow> True | Some t \<Rightarrow> tensors_ptr t = None)"
  by (auto simp: points_to_def split: option.splits)

lemma no_points_ptr_ok: "(\<And>x. \<not> points_to x ob) \<Longrightarrow> ptr_ok s ob"
  using no_points_iff [of ob] by (auto simp: ptr_ok_def split: option.splits)

lemma UnrefD:
  assumes "Unref p s = Some s1"
  shows "\<exists>b. block_at s p = Some b \<and> objs s1 = objs s \<and>
           heap s1 = (heap s)[p := (if ref_cnt b = 1 then None
                                    else Some (b\<lparr>ref_cnt := ref_cnt b - 1\<rparr>))] \<and>
           deleted s1 = (if ref_cnt b = 1 then [p] else []) @ deleted s"
proof (cases "block_at s p")
  case None
  with assms show ?thesis by (simp add: Unref_def)
next
  case (Some b)
  show ?thesis
  proof (cases "ref_cnt b = 1")
    case True
    with assms Some
    have "s1 = s\<lparr>heap := (heap s)[p := None], deleted := p # deleted s\<rparr>"
      by (simp add: Unref_def)
    with Some True show ?thesis by simp
  next
    case False
    with assms Some
    have "s1 = s\<lparr>heap := (heap s)[p := Some (b\<lparr>ref_cnt := ref_cnt b - 1\<rparr>)]\<rparr>"
      by (simp add: Unref_def)
    with Some False show ?thesis by simp
  qed
qed

lemma RefD:
  assumes "Ref p s = Some s1"
  shows "\<exists>b. block_at s p = Some b \<and> objs s1 = objs s \<and> deleted s1 = deleted s \<and>
           heap s1 = (heap s)[p := Some (b\<lparr>ref_cnt := ref_cnt b + 1\<rparr>)]"
  using assms by (auto simp: Ref_def split: Option.bind_splits)

text \<open>Releasing the reference of object \<open>i\<close>: \<^verbatim>\<open>Unref\<close>, and the slot no longer points.\<close>

lemma wf_release:
  assumes wf: "store_ok s" and t: "obj_at s i = Some t" and p: "tensors_ptr t = Some p"
    and u: "Unref p s = Some s1" and ob: "\<And>x. \<not> points_to x ob"
  shows "store_ok (s1\<lparr>objs := (objs s1)[i := ob]\<rparr>)"
proof -
  let ?s = "s1\<lparr>objs := (objs s1)[i := ob]\<rparr>"
  from wf_live [OF wf t p] obtain b where
    b: "block_at s p = Some b" and rc: "ref_cnt b = int (refs s p)" and pos: "0 < refs s p"
    and nd: "count_list (deleted s) p = 0" and dk: "distinct (map fst (values_tbl b))"
    by blast
  from UnrefD [OF u] b have o1: "objs s1 = objs s"
    and h1: "heap s1 = (heap s)[p := (if ref_cnt b = 1 then None
                                    else Some (b\<lparr>ref_cnt := ref_cnt b - 1\<rparr>))]"
    and d1: "deleted s1 = (if ref_cnt b = 1 then [p] else []) @ deleted s"
    by auto
  have len: "length (heap ?s) = length (heap s)" by (simp add: h1)
  have i: "i < length (objs s)" and oi: "objs s ! i = Some t" using obj_atD [OF t] by auto
  have plt: "p < length (heap s)" using block_atD [OF b] by simp
  have "refs ?s x + (if points_to x (objs s ! i) then 1 else 0)
          = refs s x + (if points_to x ob then 1 else 0)" for x
    using refs_update [of i s ob x] i by (simp add: refs_def o1)
  then have r: "refs ?s x + (if x = p then 1 else 0) = refs s x" for x
    using ob [of x] oi p by (simp add: eq_commute [of x p])
  show ?thesis
  proof (rule wfI)
    fix x assume "x < length (heap ?s)"
    then have x: "x < length (heap s)" using len by simp
    have okx: "block_ok s x" using wf x by (rule wf_block_ok)
    show "block_ok ?s x"
    proof (cases "x = p")
      case True
      have "refs s p = Suc (refs ?s p)" using r [of p] by simp
      then show ?thesis using True rc nd plt pos dk
        by (simp add: block_ok_def h1 d1)
    next
      case False
      have "heap ?s ! x = heap s ! x" using False by (simp add: h1)
      moreover have "count_list (deleted ?s) x = count_list (deleted s) x"
        using False by (simp add: d1)
      moreover have "refs ?s x = refs s x" using r [of x] False by simp
      ultimately show ?thesis using okx by (simp add: block_ok_cong [of ?s x s])
    qed
  next
    fix ob' assume "ob' \<in> set (objs ?s)"
    then have "ob' = ob \<or> ob' \<in> set (objs s)"
      using set_update_subset_insert [of "objs s" i ob] by (auto simp: o1)
    moreover have "ptr_ok ?s ob" using ob by (rule no_points_ptr_ok)
    moreover have "ob' \<in> set (objs s) \<Longrightarrow> ptr_ok ?s ob'"
      using wf_ptr_ok [OF wf, of ob'] ptr_ok_heap_length [OF len, of ob'] by simp
    ultimately show "ptr_ok ?s ob'" by blast
  next
    fix x assume "x \<in> set (deleted ?s)"
    then have "x = p \<or> x \<in> set (deleted s)"
      by (auto simp: d1 split: if_splits)
    then show "x < length (heap ?s)"
      using plt wf_deleted [OF wf, of x] len by auto
  qed
qed

lemma wf_objs_same_refs:
  assumes wf: "store_ok s"
    and r: "\<And>x. refs (s\<lparr>objs := os\<rparr>) x = refs s x"
    and po: "\<And>ob. ob \<in> set os \<Longrightarrow> ptr_ok s ob"
  shows "store_ok (s\<lparr>objs := os\<rparr>)"
proof (rule wfI)
  fix x assume "x < length (heap (s\<lparr>objs := os\<rparr>))"
  then have "block_ok s x" using wf by (simp add: wf_block_ok)
  then show "block_ok (s\<lparr>objs := os\<rparr>) x"
    using r [of x] by (simp add: block_ok_cong [of "s\<lparr>objs := os\<rparr>" x s])
next
  fix ob assume "ob \<in> set (objs (s\<lparr>objs := os\<rparr>))"
  then show "ptr_ok (s\<lparr>objs := os\<rparr>) ob"
    using po [of ob] ptr_ok_heap_length [of "s\<lparr>objs := os\<rparr>" s ob] by simp
next
  fix x assume "x \<in> set (deleted (s\<lparr>objs := os\<rparr>))"
  then show "x < length (heap (s\<lparr>objs := os\<rparr>))"
    using wf_deleted [OF wf, of x] by simp
qed

text \<open>Acquiring a reference to a live block: \<^verbatim>\<open>Ref\<close>, and one more slot points to it.\<close>

lemma wf_acquire:
  assumes wf: "store_ok s" and rf: "Ref q s = Some s1"
    and r: "\<And>x. refs (s\<lparr>objs := os\<rparr>) x = refs s x + (if x = q then 1 else 0)"
    and po: "\<And>ob. ob \<in> set os \<Longrightarrow> ptr_ok s ob"
  shows "store_ok (s1\<lparr>objs := os\<rparr>)"
proof -
  let ?s = "s1\<lparr>objs := os\<rparr>"
  from RefD [OF rf] obtain b where b: "block_at s q = Some b"
    and h1: "heap s1 = (heap s)[q := Some (b\<lparr>ref_cnt := ref_cnt b + 1\<rparr>)]"
    and d1: "deleted s1 = deleted s"
    by blast
  have qlt: "q < length (heap s)" and hq: "heap s ! q = Some b"
    using block_atD [OF b] by auto
  have len: "length (heap ?s) = length (heap s)" by (simp add: h1)
  have r': "refs ?s x = refs s x + (if x = q then 1 else 0)" for x
    using r [of x] by (simp add: refs_def)
  show ?thesis
  proof (rule wfI)
    fix x assume "x < length (heap ?s)"
    then have x: "x < length (heap s)" using len by simp
    have okx: "block_ok s x" using wf x by (rule wf_block_ok)
    show "block_ok ?s x"
    proof (cases "x = q")
      case True
      with okx hq qlt r' [of q] show ?thesis
        by (simp add: block_ok_def h1 d1)
    next
      case False
      have "heap ?s ! x = heap s ! x" using False by (simp add: h1)
      moreover have "refs ?s x = refs s x" using r' [of x] False by simp
      ultimately show ?thesis using okx by (simp add: block_ok_cong [of ?s x s] d1)
    qed
  next
    fix ob assume "ob \<in> set (objs ?s)"
    then show "ptr_ok ?s ob"
      using po [of ob] ptr_ok_heap_length [OF len, of ob] by simp
  next
    fix x assume "x \<in> set (deleted ?s)"
    then show "x < length (heap ?s)"
      using wf_deleted [OF wf, of x] len by (simp add: d1)
  qed
qed

lemma set_update_ptr_ok:
  assumes "\<And>ob. ob \<in> set os \<Longrightarrow> ptr_ok s ob" and "ptr_ok s y"
    and "ob \<in> set (os[i := y])"
  shows "ptr_ok s ob"
  using assms set_update_subset_insert [of os i y] by auto

lemma wf_ptr_ok_obj:
  assumes "store_ok s" "obj_at s i = Some t"
  shows "ptr_ok s (Some t)"
proof -
  have "Some t \<in> set (objs s)" using obj_atD [OF assms(2)] by (metis nth_mem)
  with assms(1) show ?thesis by (rule wf_ptr_ok)
qed

lemma ptr_ok_Some: "ptr_ok s (Some t) \<longleftrightarrow> (\<forall>p. tensors_ptr t = Some p \<longrightarrow> p < length (heap s))"
  by (auto simp: ptr_ok_def split: option.splits)

text \<open>A new block and a new object that points to it.\<close>

lemma wf_alloc:
  assumes wf: "store_ok s" and "tensors_ptr t = Some (length (heap s))"
  shows "store_ok (s\<lparr>heap := heap s @ [Some \<lparr>ref_cnt = 1, values_tbl = []\<rparr>],
               objs := objs s @ [Some t]\<rparr>)"
proof -
  let ?q = "length (heap s)"
  let ?s = "s\<lparr>heap := heap s @ [Some \<lparr>ref_cnt = 1, values_tbl = []\<rparr>], objs := objs s @ [Some t]\<rparr>"
  have r: "refs ?s x = refs s x + (if x = ?q then 1 else 0)" for x
    using assms(2) by (auto simp: refs_def)
  have z: "refs s ?q = 0"
  proof -
    have "\<not> points_to ?q ob" if "ob \<in> set (objs s)" for ob
      using wf_ptr_ok [OF wf that] by (auto simp: ptr_ok_def points_to_def split: option.splits)
    then show ?thesis by (simp add: refs_def)
  qed
  have nd: "count_list (deleted s) ?q = 0"
    using wf_deleted [OF wf, of ?q] by (auto simp: count_list_0_iff)
  show ?thesis
  proof (rule wfI)
    fix x assume "x < length (heap ?s)"
    then consider "x < ?q" | "x = ?q" by fastforce
    then show "block_ok ?s x"
    proof cases
      case 1
      then have "heap ?s ! x = heap s ! x" by (simp add: nth_append)
      moreover have "refs ?s x = refs s x" using r [of x] 1 by simp
      moreover have "block_ok s x" using wf 1 by (rule wf_block_ok)
      ultimately show ?thesis by (simp add: block_ok_cong [of ?s x s])
    next
      case 2
      then show ?thesis using r [of ?q] z nd by (simp add: block_ok_def)
    qed
  next
    fix ob assume "ob \<in> set (objs ?s)"
    then have "ob = Some t \<or> ob \<in> set (objs s)" by auto
    moreover have "ptr_ok ?s (Some t)" using assms(2) by (simp add: ptr_ok_def)
    moreover have "ptr_ok ?s ob" if "ob \<in> set (objs s)"
      using wf_ptr_ok [OF wf that] by (rule ptr_ok_mono [rotated]) simp
    ultimately show "ptr_ok ?s ob" by blast
  next
    fix x assume "x \<in> set (deleted ?s)"
    then show "x < length (heap ?s)" using wf_deleted [OF wf, of x] by simp
  qed
qed

text \<open>Writing a table with unique keys into a live block.\<close>

lemma wf_store_values:
  assumes wf: "store_ok s" and b: "block_at s p = Some b" and dk: "distinct (map fst vs)"
  shows "store_ok (store_values p b vs s)"
proof -
  let ?s = "store_values p b vs s"
  have plt: "p < length (heap s)" and hp: "heap s ! p = Some b" using block_atD [OF b] by auto
  have h: "heap ?s = (heap s)[p := Some (b\<lparr>values_tbl := vs\<rparr>)]"
    and d: "deleted ?s = deleted s" and r: "refs ?s x = refs s x" for x
    by (simp_all add: store_values_def refs_def)
  show ?thesis
  proof (rule wfI)
    fix x assume "x < length (heap ?s)"
    then have x: "x < length (heap s)" by (simp add: h)
    have okx: "block_ok s x" using wf x by (rule wf_block_ok)
    show "block_ok ?s x"
    proof (cases "x = p")
      case True
      with okx hp plt dk show ?thesis by (simp add: block_ok_def h d r)
    next
      case False
      then have "heap ?s ! x = heap s ! x" by (simp add: h)
      then show ?thesis using okx by (simp add: block_ok_cong [of ?s x s] d r)
    qed
  next
    fix ob assume "ob \<in> set (objs ?s)"
    then have "ob \<in> set (objs s)" by (simp add: store_values_def)
    then show "ptr_ok ?s ob"
      using wf_ptr_ok [OF wf, of ob] ptr_ok_heap_length [of ?s s ob] by (simp add: h)
  next
    fix x assume "x \<in> set (deleted ?s)"
    then show "x < length (heap ?s)" using wf_deleted [OF wf, of x] by (simp add: h d)
  qed
qed

lemma block_at_objs [simp]: "block_at (s\<lparr>objs := os\<rparr>) p = block_at s p"
  by (simp add: block_at_def)

lemma Ref_objs: "Ref p (s\<lparr>objs := os\<rparr>) = map_option (\<lambda>s'. s'\<lparr>objs := os\<rparr>) (Ref p s)"
  by (cases "block_at s p") (simp_all add: Ref_def)

lemma Ref_Some_iff: "(\<exists>s'. Ref p s = Some s') \<longleftrightarrow> (\<exists>b. block_at s p = Some b)"
  by (cases "block_at s p") (simp_all add: Ref_def)

lemma Unref_Some_iff: "(\<exists>s'. Unref p s = Some s') \<longleftrightarrow> (\<exists>b. block_at s p = Some b)"
  by (cases "block_at s p") (simp_all add: Unref_def)

lemma ctor_eq:
  "TensorMap_ctor sh0 dt0 s =
     (length (objs s),
      s\<lparr>heap := heap s @ [Some \<lparr>ref_cnt = 1, values_tbl = []\<rparr>],
        objs := objs s @ [Some \<lparr>element_shape = sh0, element_dtype = dt0,
                               max_num_elements = - 1, tensors_ptr = Some (length (heap s))\<rparr>]\<rparr>)"
  by (simp add: TensorMap_ctor_def new_Tensors_def)

lemma wf_ctor: "store_ok s \<Longrightarrow> store_ok (snd (TensorMap_ctor sh0 dt0 s))"
  by (simp add: ctor_eq wf_alloc)

lemma copy_ctorD:
  assumes "TensorMap_copy_ctor other s = Some (i, s')"
  shows "\<exists>ot p s1. obj_at s other = Some ot \<and> tensors_ptr ot = Some p \<and> i = length (objs s)
           \<and> Ref p s = Some s1 \<and> s' = s1\<lparr>objs := objs s @ [Some ot]\<rparr>"
proof (cases "obj_at s other")
  case None
  with assms show ?thesis by (simp add: TensorMap_copy_ctor_def)
next
  case (Some ot)
  show ?thesis
  proof (cases "tensors_ptr ot")
    case None
    with assms Some show ?thesis by (simp add: TensorMap_copy_ctor_def)
  next
    case p: (Some p)
    show ?thesis
    proof (cases "Ref p s")
      case None
      with assms Some p show ?thesis by (simp add: TensorMap_copy_ctor_def Ref_objs)
    next
      case s1: (Some s1)
      with assms Some p show ?thesis by (auto simp add: TensorMap_copy_ctor_def Ref_objs)
    qed
  qed
qed

lemma wf_copy_ctor:
  assumes wf: "store_ok s" and c: "TensorMap_copy_ctor other s = Some (i, s')"
  shows "store_ok s'"
proof -
  from copy_ctorD [OF c] obtain ot p s1 where
    ot: "obj_at s other = Some ot" and p: "tensors_ptr ot = Some p"
    and rf: "Ref p s = Some s1" and s': "s' = s1\<lparr>objs := objs s @ [Some ot]\<rparr>"
    by blast
  have "store_ok (s1\<lparr>objs := objs s @ [Some ot]\<rparr>)"
  proof (rule wf_acquire [OF wf rf])
    fix x show "refs (s\<lparr>objs := objs s @ [Some ot]\<rparr>) x = refs s x + (if x = p then 1 else 0)"
      using p by (auto simp: refs_append)
  next
    fix ob assume "ob \<in> set (objs s @ [Some ot])"
    then have "ob = Some ot \<or> ob \<in> set (objs s)" by auto
    then show "ptr_ok s ob" using wf_ptr_ok [OF wf, of ob] wf_ptr_ok_obj [OF wf ot] by blast
  qed
  then show ?thesis by (simp add: s')
qed

lemma move_ctorD:
  assumes "TensorMap_move_ctor residue rhs s = Some (i, s')"
  shows "\<exists>r. obj_at s rhs = Some r \<and> i = length (objs s) \<and>
           s' = s\<lparr>objs := (objs s)[rhs := Some (r\<lparr>element_shape := residue, tensors_ptr := None\<rparr>)]
                    @ [Some (r\<lparr>tensors_ptr := tensors_ptr r\<rparr>)]\<rparr>"
  using assms by (cases "obj_at s rhs") (auto simp: TensorMap_move_ctor_def Let_def)

lemma wf_move_ctor:
  assumes wf: "store_ok s" and c: "TensorMap_move_ctor residue rhs s = Some (i, s')"
  shows "store_ok s'"
proof -
  from move_ctorD [OF c] obtain r where r: "obj_at s rhs = Some r"
    and s': "s' = s\<lparr>objs := (objs s)[rhs := Some (r\<lparr>element_shape := residue, tensors_ptr := None\<rparr>)]
                    @ [Some r]\<rparr>"
    by auto
  let ?n = "Some (r\<lparr>element_shape := residue, tensors_ptr := None\<rparr>)"
  have i: "rhs < length (objs s)" and oi: "objs s ! rhs = Some r" using obj_atD [OF r] by auto
  have "store_ok (s\<lparr>objs := (objs s)[rhs := ?n] @ [Some r]\<rparr>)"
  proof (rule wf_objs_same_refs [OF wf])
    fix x
    have "refs (s\<lparr>objs := (objs s)[rhs := ?n]\<rparr>) x + (if points_to x (Some r) then 1 else 0)
            = refs s x"
      using refs_update [of rhs s ?n x] i oi by simp
    then show "refs (s\<lparr>objs := (objs s)[rhs := ?n] @ [Some r]\<rparr>) x = refs s x"
      by (cases "tensors_ptr r = Some x") (simp_all add: refs_def)
  next
    fix ob assume "ob \<in> set ((objs s)[rhs := ?n] @ [Some r])"
    then have "ob = Some r \<or> ob \<in> set ((objs s)[rhs := ?n])" by auto
    moreover have "ptr_ok s ?n" by (simp add: ptr_ok_def)
    ultimately show "ptr_ok s ob"
      using wf_ptr_ok_obj [OF wf r] set_update_ptr_ok [of "objs s" s ?n ob rhs] wf_ptr_ok [OF wf]
      by blast
  qed
  then show ?thesis by (simp add: s')
qed

lemma Unref_objs:
  "Unref p (s\<lparr>objs := os\<rparr>) = map_option (\<lambda>s'. s'\<lparr>objs := os\<rparr>) (Unref p s)"
  by (cases "block_at s p") (simp_all add: Unref_def)

lemma dtorD:
  assumes "TensorMap_dtor this s = Some s'"
  shows "\<exists>t. obj_at s this = Some t \<and>
           (case tensors_ptr t of
              None \<Rightarrow> s' = s\<lparr>objs := (objs s)[this := None]\<rparr>
            | Some p \<Rightarrow> (\<exists>s1. Unref p s = Some s1 \<and> s' = s1\<lparr>objs := (objs s1)[this := None]\<rparr>))"
proof (cases "obj_at s this")
  case None
  with assms show ?thesis by (simp add: TensorMap_dtor_def)
next
  case (Some t)
  show ?thesis
  proof (cases "tensors_ptr t")
    case None
    with assms Some show ?thesis by (simp add: TensorMap_dtor_def)
  next
    case p: (Some p)
    with assms Some show ?thesis
      by (cases "Unref p s") (simp_all add: TensorMap_dtor_def)
  qed
qed

lemma wf_forget:
  assumes wf: "store_ok s" and t: "obj_at s i = Some t" and n: "tensors_ptr t = None"
    and ob: "\<And>x. \<not> points_to x ob"
  shows "store_ok (s\<lparr>objs := (objs s)[i := ob]\<rparr>)"
proof (rule wf_objs_same_refs [OF wf])
  fix x
  show "refs (s\<lparr>objs := (objs s)[i := ob]\<rparr>) x = refs s x"
    using refs_update [of i s ob x] obj_atD [OF t] n ob [of x] by simp
next
  fix ob' assume "ob' \<in> set ((objs s)[i := ob])"
  then show "ptr_ok s ob'"
    using set_update_ptr_ok [of "objs s" s ob ob' i] wf_ptr_ok [OF wf]
      no_points_ptr_ok [of ob s] ob by blast
qed

lemma wf_dtor:
  assumes wf: "store_ok s" and d: "TensorMap_dtor this s = Some s'"
  shows "store_ok s'"
proof -
  from dtorD [OF d] obtain t where t: "obj_at s this = Some t"
    and c: "case tensors_ptr t of
              None \<Rightarrow> s' = s\<lparr>objs := (objs s)[this := None]\<rparr>
            | Some p \<Rightarrow> (\<exists>s1. Unref p s = Some s1 \<and> s' = s1\<lparr>objs := (objs s1)[this := None]\<rparr>)"
    by blast
  show ?thesis
  proof (cases "tensors_ptr t")
    case None
    with c have "s' = s\<lparr>objs := (objs s)[this := None]\<rparr>" by simp
    then show ?thesis using wf_forget [OF wf t None, of None] by simp
  next
    case (Some p)
    with c obtain s1 where u: "Unref p s = Some s1"
      and s': "s' = s1\<lparr>objs := (objs s1)[this := None]\<rparr>" by auto
    show ?thesis using wf_release [OF wf t Some u, of None] by (simp add: s')
  qed
qed

lemma copy_assignD:
  assumes "copy_assign this rhs s = Some s'" and "this \<noteq> rhs"
  shows "\<exists>t r p q s1 s2. obj_at s this = Some t \<and> obj_at s rhs = Some r \<and>
           tensors_ptr t = Some p \<and> tensors_ptr r = Some q \<and>
           Unref p s = Some s1 \<and> Ref q s1 = Some s2 \<and>
           s' = s2\<lparr>objs := (objs s2)[this := Some (r\<lparr>tensors_ptr := Some q\<rparr>)]\<rparr>"
proof (cases "obj_at s this")
  case None
  with assms show ?thesis by (simp add: copy_assign_def)
next
  case t: (Some t)
  show ?thesis
  proof (cases "obj_at s rhs")
    case None
    with assms t show ?thesis by (simp add: copy_assign_def)
  next
    case r: (Some r)
    show ?thesis
    proof (cases "tensors_ptr t")
      case None
      with assms t r show ?thesis by (simp add: copy_assign_def)
    next
      case p: (Some p)
      show ?thesis
      proof (cases "Unref p s")
        case None
        with assms t r p show ?thesis by (simp add: copy_assign_def)
      next
        case s1: (Some s1)
        show ?thesis
        proof (cases "tensors_ptr r")
          case None
          with assms t r p s1 show ?thesis by (simp add: copy_assign_def)
        next
          case q: (Some q)
          show ?thesis
          proof (cases "Ref q s1")
            case None
            with assms t r p s1 q show ?thesis by (simp add: copy_assign_def)
          next
            case s2: (Some s2)
            have "t\<lparr>element_shape := element_shape r, element_dtype := element_dtype r,
                    max_num_elements := max_num_elements r, tensors_ptr := Some q\<rparr>
                  = r\<lparr>tensors_ptr := Some q\<rparr>"
              by simp
            with assms t r p s1 q s2 show ?thesis by (simp add: copy_assign_def)
          qed
        qed
      qed
    qed
  qed
qed

lemma copy_assign_self: "copy_assign this this s = (if obj_at s this = None then None else Some s)"
  by (cases "obj_at s this") (simp_all add: copy_assign_def)

lemma wf_copy_assign:
  assumes wf: "store_ok s" and c: "copy_assign this rhs s = Some s'"
  shows "store_ok s'"
proof (cases "this = rhs")
  case True
  with c wf show ?thesis by (simp add: copy_assign_self split: if_splits)
next
  case False
  from copy_assignD [OF c False] obtain t r p q s1 s2 where
    t: "obj_at s this = Some t" and r: "obj_at s rhs = Some r"
    and p: "tensors_ptr t = Some p" and q: "tensors_ptr r = Some q"
    and u: "Unref p s = Some s1" and rf: "Ref q s1 = Some s2"
    and s': "s' = s2\<lparr>objs := (objs s2)[this := Some (r\<lparr>tensors_ptr := Some q\<rparr>)]\<rparr>"
    by blast
  let ?sA = "s1\<lparr>objs := (objs s1)[this := None]\<rparr>"
  let ?n = "Some (r\<lparr>tensors_ptr := Some q\<rparr>)"
  have o1: "objs s1 = objs s" using UnrefD [OF u] by auto
  have o2: "objs s2 = objs s1" using RefD [OF rf] by auto
  have len1: "length (heap s1) = length (heap s)" using UnrefD [OF u] by auto
  have i: "this < length (objs s)" using obj_atD [OF t] by simp
  have wfA: "store_ok ?sA" using wf_release [OF wf t p u, of None] by simp
  have rfA: "Ref q ?sA = Some (s2\<lparr>objs := (objs s1)[this := None]\<rparr>)"
    by (simp add: Ref_objs rf)
  have qlt: "q < length (heap s)" using wf r q by (rule wf_ptr_lt)
  have "store_ok ((s2\<lparr>objs := (objs s1)[this := None]\<rparr>)\<lparr>objs := (objs ?sA)[this := ?n]\<rparr>)"
  proof (rule wf_acquire [OF wfA rfA])
    fix x
    show "refs (?sA\<lparr>objs := (objs ?sA)[this := ?n]\<rparr>) x = refs ?sA x + (if x = q then 1 else 0)"
      using refs_update [of this ?sA ?n x] i by (auto simp: o1)
  next
    fix ob assume "ob \<in> set ((objs ?sA)[this := ?n])"
    moreover have "ptr_ok ?sA ?n" using qlt len1 by (simp add: ptr_ok_def)
    ultimately show "ptr_ok ?sA ob"
      using set_update_ptr_ok [of "objs ?sA" ?sA ?n ob this] wf_ptr_ok [OF wfA] by blast
  qed
  then show ?thesis by (simp add: s' o2)
qed

lemma move_assignD:
  assumes "move_assign this rhs s = Some s'" and "this \<noteq> rhs"
  shows "\<exists>t r. obj_at s this = Some t \<and> obj_at s rhs = Some r \<and>
           s' = s\<lparr>objs := (objs s)[this := Some r, rhs := Some (r\<lparr>tensors_ptr := tensors_ptr t\<rparr>)]\<rparr>"
proof (cases "obj_at s this")
  case None
  with assms show ?thesis by (simp add: move_assign_def)
next
  case t: (Some t)
  show ?thesis
  proof (cases "obj_at s rhs")
    case None
    with assms t show ?thesis by (simp add: move_assign_def)
  next
    case r: (Some r)
    have "t\<lparr>element_shape := element_shape r, element_dtype := element_dtype r,
            max_num_elements := max_num_elements r, tensors_ptr := tensors_ptr r\<rparr> = r"
      by simp
    with assms t r show ?thesis by (simp add: move_assign_def)
  qed
qed

lemma move_assign_self: "move_assign this this s = (if obj_at s this = None then None else Some s)"
  by (cases "obj_at s this") (simp_all add: move_assign_def)

lemma wf_move_assign:
  assumes wf: "store_ok s" and c: "move_assign this rhs s = Some s'"
  shows "store_ok s'"
proof (cases "this = rhs")
  case True
  with c wf show ?thesis by (simp add: move_assign_self split: if_splits)
next
  case False
  from move_assignD [OF c False] obtain t r where
    t: "obj_at s this = Some t" and r: "obj_at s rhs = Some r"
    and s': "s' = s\<lparr>objs := (objs s)[this := Some r,
                                      rhs := Some (r\<lparr>tensors_ptr := tensors_ptr t\<rparr>)]\<rparr>"
    by blast
  let ?a = "Some r" and ?b = "Some (r\<lparr>tensors_ptr := tensors_ptr t\<rparr>)"
  have i: "this < length (objs s)" and oi: "objs s ! this = Some t"
    and j: "rhs < length (objs s)" and oj: "objs s ! rhs = Some r"
    using obj_atD [OF t] obj_atD [OF r] by auto
  have "store_ok (s\<lparr>objs := (objs s)[this := ?a, rhs := ?b]\<rparr>)"
  proof (rule wf_objs_same_refs [OF wf])
    fix x
    let ?s1 = "s\<lparr>objs := (objs s)[this := ?a]\<rparr>"
    have 1: "refs ?s1 x + (if tensors_ptr t = Some x then 1 else 0)
               = refs s x + (if tensors_ptr r = Some x then 1 else 0)"
      using refs_update [of this s ?a x] i oi by simp
    have 2: "refs (?s1\<lparr>objs := (objs ?s1)[rhs := ?b]\<rparr>) x
               + (if tensors_ptr r = Some x then 1 else 0)
               = refs ?s1 x + (if tensors_ptr t = Some x then 1 else 0)"
      using refs_update [of rhs ?s1 ?b x] j oj False by simp
    from 1 2 show "refs (s\<lparr>objs := (objs s)[this := ?a, rhs := ?b]\<rparr>) x = refs s x"
      by simp
  next
    fix ob assume "ob \<in> set ((objs s)[this := ?a, rhs := ?b])"
    moreover have "ptr_ok s ?a" using wf r by (rule wf_ptr_ok_obj)
    moreover have "ptr_ok s ?b" using wf_ptr_ok_obj [OF wf t] by (simp add: ptr_ok_def)
    ultimately show "ptr_ok s ob"
      using set_update_ptr_ok [of "(objs s)[this := ?a]" s ?b ob rhs]
        set_update_ptr_ok [of "objs s" s ?a _ this] wf_ptr_ok [OF wf] by blast
  qed
  then show ?thesis by (simp add: s')
qed

lemma distinct_count_le_1: "(\<And>x. x \<in> set xs \<Longrightarrow> count_list xs x \<le> 1) \<Longrightarrow> distinct xs"
proof (induction xs)
  case Nil
  then show ?case by simp
next
  case (Cons a xs)
  have "count_list (a # xs) a \<le> 1" using Cons.prems [of a] by simp
  then have a: "a \<notin> set xs" by (simp add: count_list_0_iff)
  have "count_list xs x \<le> 1" if "x \<in> set xs" for x
    using Cons.prems [of x] that by (simp split: if_splits)
  then have "distinct xs" by (rule Cons.IH)
  with a show ?case by simp
qed

lemma wf_distinct_deleted:
  assumes "store_ok s"
  shows "distinct (deleted s)"
proof (rule distinct_count_le_1)
  fix x assume "x \<in> set (deleted s)"
  from wf_block_ok [OF assms wf_deleted [OF assms this]]
  show "count_list (deleted s) x \<le> 1"
    by (auto simp: block_ok_def split: option.splits)
qed

lemma tensors_eq_Some:
  "tensors this s = Some (p, b) \<longleftrightarrow>
     (\<exists>t. obj_at s this = Some t \<and> tensors_ptr t = Some p) \<and> block_at s p = Some b"
proof (cases "obj_at s this")
  case None
  then show ?thesis by (simp add: tensors_def)
next
  case (Some t)
  show ?thesis
  proof (cases "tensors_ptr t")
    case None
    with Some show ?thesis by (simp add: tensors_def)
  next
    case q: (Some q)
    with Some show ?thesis by (cases "block_at s q") (auto simp: tensors_def)
  qed
qed

lemma wf_usable:
  assumes "store_ok s" "obj_at s i = Some t" "tensors_ptr t = Some p"
  shows "\<exists>b. tensors i s = Some (p, b)"
  using wf_live [OF assms] assms(2,3) by (auto simp: tensors_eq_Some)

text \<open>The copy constructor on a usable handle.\<close>

lemma copy_ctor_usable:
  assumes t: "obj_at s a = Some t" and p: "tensors_ptr t = Some p" and b: "block_at s p = Some b"
  shows "TensorMap_copy_ctor a s =
           Some (length (objs s),
                 s\<lparr>heap := (heap s)[p := Some (b\<lparr>ref_cnt := ref_cnt b + 1\<rparr>)],
                   objs := objs s @ [Some t]\<rparr>)"
  using assms by (simp add: TensorMap_copy_ctor_def Ref_def)

lemma obj_at_append:
  "obj_at (s\<lparr>objs := objs s @ [ob]\<rparr>) i =
     (if i < length (objs s) then obj_at s i else if i = length (objs s) then ob else None)"
  by (simp add: obj_at_def nth_append)

lemma obj_at_heap [simp]: "obj_at (s\<lparr>heap := h\<rparr>) i = obj_at s i"
  by (simp add: obj_at_def)

lemma obj_at_deleted [simp]: "obj_at (s\<lparr>deleted := d\<rparr>) i = obj_at s i"
  by (simp add: obj_at_def)

lemma block_at_deleted [simp]: "block_at (s\<lparr>deleted := d\<rparr>) p = block_at s p"
  by (simp add: block_at_def)

lemma block_at_update:
  "block_at (s\<lparr>heap := (heap s)[p := x]\<rparr>) q =
     (if q = p \<and> p < length (heap s) then x else block_at s q)"
  by (simp add: block_at_def)

lemma obj_at_update:
  "obj_at (s\<lparr>objs := (objs s)[i := x]\<rparr>) j =
     (if j = i \<and> i < length (objs s) then x else obj_at s j)"
  by (simp add: obj_at_def)

text \<open>The destructor on a usable handle.\<close>

lemma dtor_usable:
  assumes t: "obj_at s a = Some t" and p: "tensors_ptr t = Some p" and b: "block_at s p = Some b"
  shows "TensorMap_dtor a s =
           Some (s\<lparr>heap := (heap s)[p := (if ref_cnt b = 1 then None
                                            else Some (b\<lparr>ref_cnt := ref_cnt b - 1\<rparr>))],
                   deleted := (if ref_cnt b = 1 then [p] else []) @ deleted s,
                   objs := (objs s)[a := None]\<rparr>)"
  using assms by (simp add: TensorMap_dtor_def Unref_def)

lemma dtor_null:
  assumes t: "obj_at s a = Some t" and p: "tensors_ptr t = None"
  shows "TensorMap_dtor a s = Some (s\<lparr>objs := (objs s)[a := None]\<rparr>)"
  using assms by (simp add: TensorMap_dtor_def)

lemma RefCountIsOne_usable:
  assumes "tensors a s = Some (p, b)"
  shows "RefCountIsOne a s = Some (ref_cnt b = 1)"
  using assms by (auto simp: tensors_eq_Some RefCountIsOne_def Tensors_RefCountIsOne_def)

lemma refs_one_iff:
  assumes t: "obj_at s a = Some t" and p: "tensors_ptr t = Some p"
  shows "refs s p = 1 \<longleftrightarrow> (\<forall>j u. j \<noteq> a \<and> obj_at s j = Some u \<longrightarrow> tensors_ptr u \<noteq> Some p)"
proof -
  have a: "a < length (objs s)" and oa: "points_to p (objs s ! a)"
    using obj_atD [OF t] p by auto
  have "refs s p = 1 \<longleftrightarrow> (\<forall>j < length (objs s). j \<noteq> a \<longrightarrow> \<not> points_to p (objs s ! j))"
    unfolding refs_def using a oa by (rule count_filter_one_iff)
  also have "\<dots> \<longleftrightarrow> (\<forall>j u. j \<noteq> a \<and> obj_at s j = Some u \<longrightarrow> tensors_ptr u \<noteq> Some p)"
    by (auto simp: obj_at_def points_to_def split: option.splits if_splits)
  finally show ?thesis .
qed

lemma RefCountIsOne_sole:
  assumes wf: "store_ok s" and u: "tensors a s = Some (p, b)"
  shows "RefCountIsOne a s =
           Some (\<forall>j u. j \<noteq> a \<and> obj_at s j = Some u \<longrightarrow> tensors_ptr u \<noteq> Some p)"
proof -
  from u obtain t where t: "obj_at s a = Some t" and p: "tensors_ptr t = Some p"
    and b: "block_at s p = Some b" by (auto simp: tensors_eq_Some)
  from wf_live [OF wf t p] b have "ref_cnt b = int (refs s p)" by auto
  then have "ref_cnt b = 1 \<longleftrightarrow> refs s p = 1" by auto
  then show ?thesis
    using RefCountIsOne_usable [OF u] refs_one_iff [OF t p] by simp
qed

lemma ctor_fresh:
  "tensors (fst (TensorMap_ctor sh0 dt0 s)) (snd (TensorMap_ctor sh0 dt0 s))
     = Some (length (heap s), \<lparr>ref_cnt = 1, values_tbl = []\<rparr>)"
  by (simp add: ctor_eq tensors_def obj_at_def block_at_def)

lemma wf_ref_cnt_pos:
  assumes wf: "store_ok s" and u: "tensors a s = Some (p, b)"
  shows "1 \<le> ref_cnt b"
proof -
  from u obtain t where t: "obj_at s a = Some t" and p: "tensors_ptr t = Some p"
    and b: "block_at s p = Some b" by (auto simp: tensors_eq_Some)
  from wf_live [OF wf t p] b show ?thesis by auto
qed

lemma copy_then_destroy:
  assumes wf: "store_ok s" and u: "tensors a s = Some (p, b)"
  shows "\<exists>c s1. TensorMap_copy_ctor a s = Some (c, s1) \<and>
           tensors c s1 = Some (p, b\<lparr>ref_cnt := ref_cnt b + 1\<rparr>) \<and>
           tensors a s1 = Some (p, b\<lparr>ref_cnt := ref_cnt b + 1\<rparr>) \<and>
           store_ok s1 \<and> RefCountIsOne a s1 = Some False \<and>
           (\<exists>s2. TensorMap_dtor c s1 = Some s2 \<and> tensors a s2 = Some (p, b) \<and> store_ok s2 \<and>
                 deleted s2 = deleted s \<and>
                 RefCountIsOne a s2 = Some (ref_cnt b = 1))"
proof -
  from u obtain t where t: "obj_at s a = Some t" and p: "tensors_ptr t = Some p"
    and b: "block_at s p = Some b" by (auto simp: tensors_eq_Some)
  have a: "a < length (objs s)" and plt: "p < length (heap s)" and hp: "heap s ! p = Some b"
    using obj_atD [OF t] block_atD [OF b] by auto
  have pos: "1 \<le> ref_cnt b" using wf u by (rule wf_ref_cnt_pos)
  let ?c = "length (objs s)"
  let ?b1 = "b\<lparr>ref_cnt := ref_cnt b + 1\<rparr>"
  let ?s1 = "s\<lparr>heap := (heap s)[p := Some ?b1], objs := objs s @ [Some t]\<rparr>"
  have c: "TensorMap_copy_ctor a s = Some (?c, ?s1)"
    using t p b by (rule copy_ctor_usable)
  have wf1: "store_ok ?s1" using wf c by (rule wf_copy_ctor)
  have tc: "obj_at ?s1 ?c = Some t" by (simp add: obj_at_def)
  have ta: "obj_at ?s1 a = Some t" using a t by (simp add: obj_at_def nth_append)
  have b1: "block_at ?s1 p = Some ?b1" using plt by (simp add: block_at_def)
  have uc: "tensors ?c ?s1 = Some (p, ?b1)" using tc p b1 by (auto simp: tensors_eq_Some)
  have ua: "tensors a ?s1 = Some (p, ?b1)" using ta p b1 by (auto simp: tensors_eq_Some)
  have r1: "RefCountIsOne a ?s1 = Some False"
    using RefCountIsOne_usable [OF ua] pos by simp
  let ?s2 = "s\<lparr>objs := objs s @ [None]\<rparr>"
  have "(heap s)[p := Some b] = heap s" using hp plt by (metis list_update_id)
  then have d: "TensorMap_dtor ?c ?s1 = Some ?s2"
    using dtor_usable [OF tc p b1] pos by simp
  have wf2: "store_ok ?s2" using wf_dtor [OF wf1 d] .
  have ua2: "tensors a ?s2 = Some (p, b)"
    using a t p b by (auto simp: tensors_eq_Some obj_at_def nth_append)
  have r2: "RefCountIsOne a ?s2 = Some (ref_cnt b = 1)" using ua2 by (rule RefCountIsOne_usable)
  show ?thesis using c uc ua wf1 r1 d ua2 wf2 r2 by simp
qed

lemma destroy_usable:
  assumes wf: "store_ok s" and u: "tensors a s = Some (p, b)"
  shows "\<exists>s1. TensorMap_dtor a s = Some s1 \<and> obj_at s1 a = None \<and> store_ok s1 \<and>
           distinct (deleted s1) \<and>
           (ref_cnt b = 1 \<longrightarrow> block_at s1 p = None \<and> deleted s1 = p # deleted s) \<and>
           (ref_cnt b \<noteq> 1 \<longrightarrow> block_at s1 p = Some (b\<lparr>ref_cnt := ref_cnt b - 1\<rparr>)
                                  \<and> deleted s1 = deleted s)"
proof -
  from u obtain t where t: "obj_at s a = Some t" and p: "tensors_ptr t = Some p"
    and b: "block_at s p = Some b" by (auto simp: tensors_eq_Some)
  have a: "a < length (objs s)" and plt: "p < length (heap s)"
    using obj_atD [OF t] block_atD [OF b] by auto
  let ?s1 = "s\<lparr>heap := (heap s)[p := (if ref_cnt b = 1 then None
                                            else Some (b\<lparr>ref_cnt := ref_cnt b - 1\<rparr>))],
                   deleted := (if ref_cnt b = 1 then [p] else []) @ deleted s,
                   objs := (objs s)[a := None]\<rparr>"
  have d: "TensorMap_dtor a s = Some ?s1" using t p b by (rule dtor_usable)
  have wf1: "store_ok ?s1" using wf d by (rule wf_dtor)
  have "obj_at ?s1 a = None" using a by (simp add: obj_at_def)
  moreover have "distinct (deleted ?s1)" using wf1 by (rule wf_distinct_deleted)
  moreover have "ref_cnt b = 1 \<longrightarrow> block_at ?s1 p = None \<and> deleted ?s1 = p # deleted s"
    using plt by (simp add: block_at_def)
  moreover have "ref_cnt b \<noteq> 1 \<longrightarrow> block_at ?s1 p = Some (b\<lparr>ref_cnt := ref_cnt b - 1\<rparr>)
                                  \<and> deleted ?s1 = deleted s"
    using plt by (simp add: block_at_def)
  ultimately show ?thesis using d wf1 by blast
qed

text \<open>
  C3. In a store that satisfies the invariant, with \<open>a\<close> a usable handle on block \<open>p\<close>:
  a default-constructed handle owns a fresh block with count 1; a copy of \<open>a\<close> raises
  the count of \<open>p\<close> by one (so \<^verbatim>\<open>RefCountIsOne\<close> is false), and destroying that copy
  gives the count back, so that \<open>a.RefCountIsOne()\<close> is true again if the count was 1;
  destroying \<open>a\<close> lowers the count by one and deletes the block exactly when the count
  reaches 0, no block being deleted twice; the count is at least 1; and
  \<^verbatim>\<open>RefCountIsOne\<close> is true exactly when no other live handle references the block.
  Every step keeps the invariant.
\<close>

theorem refcount_accounting:
  assumes wf: "store_ok s" and u: "tensors a s = Some (p, b)"
  shows "tensors (fst (TensorMap_ctor sh0 dt0 s)) (snd (TensorMap_ctor sh0 dt0 s))
             = Some (length (heap s), \<lparr>ref_cnt = 1, values_tbl = []\<rparr>)
         \<and> block_at s (length (heap s)) = None
         \<and> store_ok (snd (TensorMap_ctor sh0 dt0 s))
         \<and> (\<exists>c s1. TensorMap_copy_ctor a s = Some (c, s1) \<and>
               tensors c s1 = Some (p, b\<lparr>ref_cnt := ref_cnt b + 1\<rparr>) \<and>
               tensors a s1 = Some (p, b\<lparr>ref_cnt := ref_cnt b + 1\<rparr>) \<and>
               store_ok s1 \<and> RefCountIsOne a s1 = Some False \<and>
               (\<exists>s2. TensorMap_dtor c s1 = Some s2 \<and> tensors a s2 = Some (p, b) \<and> store_ok s2 \<and>
                     deleted s2 = deleted s \<and>
                     RefCountIsOne a s2 = Some (ref_cnt b = 1)))
         \<and> (\<exists>s1. TensorMap_dtor a s = Some s1 \<and> obj_at s1 a = None \<and> store_ok s1 \<and>
               distinct (deleted s1) \<and>
               (ref_cnt b = 1 \<longrightarrow> block_at s1 p = None \<and> deleted s1 = p # deleted s) \<and>
               (ref_cnt b \<noteq> 1 \<longrightarrow> block_at s1 p = Some (b\<lparr>ref_cnt := ref_cnt b - 1\<rparr>)
                                      \<and> deleted s1 = deleted s))
         \<and> 1 \<le> ref_cnt b
         \<and> RefCountIsOne a s
             = Some (\<forall>j u. j \<noteq> a \<and> obj_at s j = Some u \<longrightarrow> tensors_ptr u \<noteq> Some p)"
proof (intro conjI)
  show "tensors (fst (TensorMap_ctor sh0 dt0 s)) (snd (TensorMap_ctor sh0 dt0 s))
             = Some (length (heap s), \<lparr>ref_cnt = 1, values_tbl = []\<rparr>)"
    by (rule ctor_fresh)
  show "block_at s (length (heap s)) = None" by (simp add: block_at_def)
  show "store_ok (snd (TensorMap_ctor sh0 dt0 s))" using wf by (rule wf_ctor)
  show "\<exists>c s1. TensorMap_copy_ctor a s = Some (c, s1) \<and>
               tensors c s1 = Some (p, b\<lparr>ref_cnt := ref_cnt b + 1\<rparr>) \<and>
               tensors a s1 = Some (p, b\<lparr>ref_cnt := ref_cnt b + 1\<rparr>) \<and>
               store_ok s1 \<and> RefCountIsOne a s1 = Some False \<and>
               (\<exists>s2. TensorMap_dtor c s1 = Some s2 \<and> tensors a s2 = Some (p, b) \<and> store_ok s2 \<and>
                     deleted s2 = deleted s \<and>
                     RefCountIsOne a s2 = Some (ref_cnt b = 1))"
    using wf u by (rule copy_then_destroy)
  show "\<exists>s1. TensorMap_dtor a s = Some s1 \<and> obj_at s1 a = None \<and> store_ok s1 \<and>
               distinct (deleted s1) \<and>
               (ref_cnt b = 1 \<longrightarrow> block_at s1 p = None \<and> deleted s1 = p # deleted s) \<and>
               (ref_cnt b \<noteq> 1 \<longrightarrow> block_at s1 p = Some (b\<lparr>ref_cnt := ref_cnt b - 1\<rparr>)
                                      \<and> deleted s1 = deleted s)"
    using wf u by (rule destroy_usable)
  show "1 \<le> ref_cnt b" using wf u by (rule wf_ref_cnt_pos)
  show "RefCountIsOne a s
             = Some (\<forall>j u. j \<noteq> a \<and> obj_at s j = Some u \<longrightarrow> tensors_ptr u \<noteq> Some p)"
    using wf u by (rule RefCountIsOne_sole)
qed

lemma wf_one_map: "store_ok one_map"
  unfolding one_map_def using wf_init by (rule wf_ctor)

theorem refcount_accounting_witness:
  "store_ok one_map \<and> tensors 0 one_map = Some (0, \<lparr>ref_cnt = 1, values_tbl = []\<rparr>) \<and>
   RefCountIsOne 0 one_map = Some True \<and>
   (\<exists>c s1. TensorMap_copy_ctor 0 one_map = Some (c, s1) \<and>
      tensors c s1 = Some (0, \<lparr>ref_cnt = 2, values_tbl = []\<rparr>) \<and>
      RefCountIsOne 0 s1 = Some False \<and>
      (\<exists>s2. TensorMap_dtor c s1 = Some s2 \<and> RefCountIsOne 0 s2 = Some True)) \<and>
   (\<exists>s1. TensorMap_dtor 0 one_map = Some s1 \<and> block_at s1 0 = None \<and> deleted s1 = [0])"
proof -
  note t = refcount_accounting [OF wf_one_map tensors_one_map, of "()" "()"]
  have d: "deleted one_map = []"
    by (simp add: one_map_def ctor_eq init_def)
  have r: "RefCountIsOne 0 one_map = Some True"
    using RefCountIsOne_usable [OF tensors_one_map] by simp
  from t d r wf_one_map tensors_one_map show ?thesis by auto
qed

lemma dtor_progress:
  assumes wf: "store_ok s" and t: "obj_at s i = Some t"
  shows "\<exists>s'. TensorMap_dtor i s = Some s' \<and> store_ok s' \<and> distinct (deleted s') \<and>
           length (heap s') = length (heap s)"
proof (cases "tensors_ptr t")
  case None
  have d: "TensorMap_dtor i s = Some (s\<lparr>objs := (objs s)[i := None]\<rparr>)"
    using t None by (rule dtor_null)
  from wf_dtor [OF wf d] wf_distinct_deleted [OF wf_dtor [OF wf d]] d show ?thesis by simp
next
  case (Some p)
  from wf_live [OF wf t Some] obtain b where b: "block_at s p = Some b" by blast
  note d = dtor_usable [OF t Some b]
  from wf_dtor [OF wf d] wf_distinct_deleted [OF wf_dtor [OF wf d]] d show ?thesis by simp
qed

lemma tensors_null:
  "obj_at s i = Some t \<Longrightarrow> tensors_ptr t = None \<Longrightarrow> tensors i s = None"
  by (simp add: tensors_def)

lemma move_ctor_usable:
  assumes r: "obj_at s rhs = Some r"
  shows "TensorMap_move_ctor residue rhs s =
           Some (length (objs s),
                 s\<lparr>objs := (objs s)[rhs := Some (r\<lparr>element_shape := residue,
                                                   tensors_ptr := None\<rparr>)] @ [Some r]\<rparr>)"
  using r by (simp add: TensorMap_move_ctor_def)

lemma move_constructed:
  assumes wf: "store_ok s" and r: "obj_at s rhs = Some r"
  shows "\<exists>c s1. TensorMap_move_ctor residue rhs s = Some (c, s1) \<and> c \<noteq> rhs \<and>
           heap s1 = heap s \<and> deleted s1 = deleted s \<and>
           obj_at s1 c = Some r \<and>
           (\<exists>m. obj_at s1 rhs = Some m \<and> tensors_ptr m = None) \<and>
           tensors rhs s1 = None \<and> insert_tm rhs k v s1 = None \<and> size_tm rhs s1 = None \<and>
           store_ok s1 \<and>
           (\<exists>s2. TensorMap_dtor rhs s1 = Some s2 \<and> heap s2 = heap s \<and>
                 deleted s2 = deleted s \<and> store_ok s2)"
proof -
  let ?m = "r\<lparr>element_shape := residue, tensors_ptr := None\<rparr>"
  let ?c = "length (objs s)"
  let ?s1 = "s\<lparr>objs := (objs s)[rhs := Some ?m] @ [Some r]\<rparr>"
  have i: "rhs < length (objs s)" using obj_atD [OF r] by simp
  have c: "TensorMap_move_ctor residue rhs s = Some (?c, ?s1)" using r by (rule move_ctor_usable)
  have wf1: "store_ok ?s1" using wf c by (rule wf_move_ctor)
  have oc: "obj_at ?s1 ?c = Some r" by (simp add: obj_at_def nth_append)
  have om: "obj_at ?s1 rhs = Some ?m" using i by (simp add: obj_at_def nth_append)
  have tn: "tensors rhs ?s1 = None" using om by (rule tensors_null) simp
  have d: "TensorMap_dtor rhs ?s1 = Some (?s1\<lparr>objs := (objs ?s1)[rhs := None]\<rparr>)"
    using om by (rule dtor_null) simp
  have wf2: "store_ok (?s1\<lparr>objs := (objs ?s1)[rhs := None]\<rparr>)" using wf1 d by (rule wf_dtor)
  have "insert_tm rhs k v ?s1 = None" "size_tm rhs ?s1 = None"
    using tn by (simp_all add: insert_tm_def size_tm_def)
  with c i oc om tn wf1 d wf2 show ?thesis by simp
qed

lemma move_assign_usable:
  assumes "this \<noteq> rhs" and t: "obj_at s this = Some t" and r: "obj_at s rhs = Some r"
  shows "move_assign this rhs s =
           Some (s\<lparr>objs := (objs s)[this := Some r,
                                     rhs := Some (r\<lparr>tensors_ptr := tensors_ptr t\<rparr>)]\<rparr>)"
proof -
  have e: "t\<lparr>element_shape := element_shape r, element_dtype := element_dtype r,
          max_num_elements := max_num_elements r, tensors_ptr := tensors_ptr r\<rparr> = r"
    by simp
  have m: "move_assign this rhs s =
      Some (s\<lparr>objs := (objs s)[this := Some (t\<lparr>element_shape := element_shape r,
              element_dtype := element_dtype r, max_num_elements := max_num_elements r,
              tensors_ptr := tensors_ptr r\<rparr>),
            rhs := Some (r\<lparr>tensors_ptr := tensors_ptr t\<rparr>)]\<rparr>)"
    using assms by (simp add: move_assign_def)
  show ?thesis by (simp only: m e)
qed

lemma move_assigned:
  assumes wf: "store_ok s" and r: "obj_at s rhs = Some r" and ne: "this \<noteq> rhs"
    and t: "obj_at s this = Some t"
  shows "\<exists>s1. move_assign this rhs s = Some s1 \<and> heap s1 = heap s \<and> deleted s1 = deleted s \<and>
           obj_at s1 this = Some r \<and>
           (\<exists>m. obj_at s1 rhs = Some m \<and> tensors_ptr m = tensors_ptr t) \<and>
           store_ok s1 \<and>
           (\<exists>s2. TensorMap_dtor rhs s1 = Some s2 \<and> store_ok s2 \<and> distinct (deleted s2))"
proof -
  let ?m = "r\<lparr>tensors_ptr := tensors_ptr t\<rparr>"
  let ?s1 = "s\<lparr>objs := (objs s)[this := Some r, rhs := Some ?m]\<rparr>"
  have i: "this < length (objs s)" and j: "rhs < length (objs s)"
    using obj_atD [OF t] obj_atD [OF r] by auto
  have c: "move_assign this rhs s = Some ?s1" using ne t r by (rule move_assign_usable)
  have wf1: "store_ok ?s1" using wf c by (rule wf_move_assign)
  have ot: "obj_at ?s1 this = Some r" using i j ne by (simp add: obj_at_def)
  have om: "obj_at ?s1 rhs = Some ?m" using i j ne by (simp add: obj_at_def)
  from dtor_progress [OF wf1 om] obtain s2 where
    "TensorMap_dtor rhs ?s1 = Some s2" "store_ok s2" "distinct (deleted s2)" by blast
  with c ot om wf1 show ?thesis by auto
qed

text \<open>
  C9, as the code has it. In a store that satisfies the invariant, with \<open>rhs\<close> a live
  object: the move constructor gives the new object the header and the pointer of \<open>rhs\<close>,
  changes no block (so no count) and leaves \<^verbatim>\<open>nullptr\<close> in \<open>rhs\<close>, through which no
  table operation is defined any more; destroying \<open>rhs\<close> afterwards changes no block.
  Move assignment of an object to itself changes nothing. Move assignment to another
  object \<open>this\<close> gives \<open>this\<close> the header and the pointer of \<open>rhs\<close>, changes no
  block, and leaves the former pointer of \<open>this\<close> in \<open>rhs\<close> (the pointers are swapped);
  destroying \<open>rhs\<close> afterwards is defined and no block is deleted twice.
\<close>

theorem move_semantics:
  assumes wf: "store_ok s" and r: "obj_at s rhs = Some r"
  shows "(\<exists>c s1. TensorMap_move_ctor residue rhs s = Some (c, s1) \<and> c \<noteq> rhs \<and>
            heap s1 = heap s \<and> deleted s1 = deleted s \<and>
            obj_at s1 c = Some r \<and>
            (\<exists>m. obj_at s1 rhs = Some m \<and> tensors_ptr m = None) \<and>
            tensors rhs s1 = None \<and> insert_tm rhs k v s1 = None \<and> size_tm rhs s1 = None \<and>
            store_ok s1 \<and>
            (\<exists>s2. TensorMap_dtor rhs s1 = Some s2 \<and> heap s2 = heap s \<and>
                  deleted s2 = deleted s \<and> store_ok s2))
         \<and> move_assign rhs rhs s = Some s
         \<and> (\<forall>this t. this \<noteq> rhs \<and> obj_at s this = Some t \<longrightarrow>
              (\<exists>s1. move_assign this rhs s = Some s1 \<and> heap s1 = heap s \<and>
                 deleted s1 = deleted s \<and> obj_at s1 this = Some r \<and>
                 (\<exists>m. obj_at s1 rhs = Some m \<and> tensors_ptr m = tensors_ptr t) \<and>
                 store_ok s1 \<and>
                 (\<exists>s2. TensorMap_dtor rhs s1 = Some s2 \<and> store_ok s2 \<and> distinct (deleted s2))))"
proof (intro conjI allI impI)
  show "\<exists>c s1. TensorMap_move_ctor residue rhs s = Some (c, s1) \<and> c \<noteq> rhs \<and>
            heap s1 = heap s \<and> deleted s1 = deleted s \<and>
            obj_at s1 c = Some r \<and>
            (\<exists>m. obj_at s1 rhs = Some m \<and> tensors_ptr m = None) \<and>
            tensors rhs s1 = None \<and> insert_tm rhs k v s1 = None \<and> size_tm rhs s1 = None \<and>
            store_ok s1 \<and>
            (\<exists>s2. TensorMap_dtor rhs s1 = Some s2 \<and> heap s2 = heap s \<and>
                  deleted s2 = deleted s \<and> store_ok s2)"
    using wf r by (rule move_constructed)
  show "move_assign rhs rhs s = Some s" using r by (simp add: move_assign_self)
next
  fix this t assume "this \<noteq> rhs \<and> obj_at s this = Some t"
  then show "\<exists>s1. move_assign this rhs s = Some s1 \<and> heap s1 = heap s \<and>
                 deleted s1 = deleted s \<and> obj_at s1 this = Some r \<and>
                 (\<exists>m. obj_at s1 rhs = Some m \<and> tensors_ptr m = tensors_ptr t) \<and>
                 store_ok s1 \<and>
                 (\<exists>s2. TensorMap_dtor rhs s1 = Some s2 \<and> store_ok s2 \<and> distinct (deleted s2))"
    using move_assigned [OF wf r, of this t] by blast
qed

lemma two_maps_eq:
  "two_maps = \<lparr>objs = [Some \<lparr>element_shape = (), element_dtype = (), max_num_elements = - 1,
                            tensors_ptr = Some 0\<rparr>,
                      Some \<lparr>element_shape = (), element_dtype = (), max_num_elements = - 1,
                            tensors_ptr = Some 1\<rparr>],
               heap = [Some \<lparr>ref_cnt = 1, values_tbl = []\<rparr>, Some \<lparr>ref_cnt = 1, values_tbl = []\<rparr>],
               deleted = []\<rparr>"
  by (simp add: two_maps_def one_map_def ctor_eq init_def)

lemma wf_two_maps: "store_ok two_maps"
  unfolding two_maps_def using wf_one_map by (rule wf_ctor)

theorem move_semantics_witness:
  "store_ok two_maps \<and>
   obj_at two_maps 0 = Some \<lparr>element_shape = (), element_dtype = (), max_num_elements = - 1,
                             tensors_ptr = Some 0\<rparr> \<and>
   (\<exists>c s1. TensorMap_move_ctor () 0 two_maps = Some (c, s1) \<and> heap s1 = heap two_maps \<and>
      tensors 0 s1 = None \<and>
      (\<exists>s2. TensorMap_dtor 0 s1 = Some s2 \<and> deleted s2 = [])) \<and>
   move_assign 0 0 two_maps = Some two_maps \<and>
   (\<exists>s1. move_assign 1 0 two_maps = Some s1 \<and> heap s1 = heap two_maps \<and>
      (\<exists>m. obj_at s1 0 = Some m \<and> tensors_ptr m = Some 1) \<and>
      (\<exists>s2. TensorMap_dtor 0 s1 = Some s2 \<and> distinct (deleted s2)))"
proof -
  have o0: "obj_at two_maps 0 = Some \<lparr>element_shape = (), element_dtype = (),
              max_num_elements = - 1, tensors_ptr = Some 0\<rparr>"
    and o1: "obj_at two_maps 1 = Some \<lparr>element_shape = (), element_dtype = (),
              max_num_elements = - 1, tensors_ptr = Some 1\<rparr>"
    and d: "deleted two_maps = []"
    by (simp_all add: two_maps_eq obj_at_def)
  note t = move_semantics [OF wf_two_maps o0, of "()" 5 7]
  from t have a: "\<exists>c s1. TensorMap_move_ctor () 0 two_maps = Some (c, s1) \<and>
      heap s1 = heap two_maps \<and> tensors 0 s1 = None \<and>
      (\<exists>s2. TensorMap_dtor 0 s1 = Some s2 \<and> deleted s2 = [])"
    using d by auto
  from t have b: "move_assign 0 0 two_maps = Some two_maps" by blast
  from t have "\<forall>this t. this \<noteq> 0 \<and> obj_at two_maps this = Some t \<longrightarrow>
      (\<exists>s1. move_assign this 0 two_maps = Some s1 \<and> heap s1 = heap two_maps \<and>
         (\<exists>m. obj_at s1 0 = Some m \<and> tensors_ptr m = tensors_ptr t) \<and>
         (\<exists>s2. TensorMap_dtor 0 s1 = Some s2 \<and> distinct (deleted s2)))"
    by blast
  from this [rule_format, of 1, OF conjI [OF _ o1]]
  have c: "\<exists>s1. move_assign 1 0 two_maps = Some s1 \<and> heap s1 = heap two_maps \<and>
      (\<exists>m. obj_at s1 0 = Some m \<and> tensors_ptr m = Some 1) \<and>
      (\<exists>s2. TensorMap_dtor 0 s1 = Some s2 \<and> distinct (deleted s2))"
    by simp
  from a b c o0 wf_two_maps show ?thesis by blast
qed

text \<open>
  C9 as stated fails for move assignment: after \<^verbatim>\<open>b = std::move(a)\<close> on two
  default-constructed maps, the moved-from \<open>a\<close> references the former block of \<open>b\<close>,
  and an insertion through \<open>a\<close> succeeds.
\<close>

theorem moved_from_usable_counterexample:
  "Option.bind (move_assign 1 0 two_maps) (tensors 0)
      = Some (1, \<lparr>ref_cnt = 1, values_tbl = []\<rparr>)
   \<and> map_option fst (Option.bind (move_assign 1 0 two_maps) (insert_tm 0 (5::nat) (7::nat)))
      = Some True"
  by (simp add: two_maps_eq move_assign_def obj_at_def tensors_def block_at_def
      insert_tm_def fhm_try_emplace_def store_values_def)

lemma wf_shared_ref_cnt:
  assumes wf: "store_ok s" and ne: "d \<noteq> a"
    and d: "tensors d s = Some (p, b)" and a: "tensors a s = Some (p, b)"
  shows "2 \<le> ref_cnt b"
proof -
  from d obtain td where td: "obj_at s d = Some td" and pd: "tensors_ptr td = Some p"
    by (auto simp: tensors_eq_Some)
  from a obtain ta where ta: "obj_at s a = Some ta" and pa: "tensors_ptr ta = Some p"
    and b: "block_at s p = Some b" by (auto simp: tensors_eq_Some)
  have "2 \<le> refs s p"
    unfolding refs_def
    using obj_atD [OF td] obj_atD [OF ta] ne pd pa
    by (intro count_filter_two [of d _ a]) auto
  moreover from wf_live [OF wf ta pa] b have "ref_cnt b = int (refs s p)" by auto
  ultimately show ?thesis by simp
qed

lemma copy_assign_same_block:
  assumes ne: "d \<noteq> a"
    and td: "obj_at s d = Some td" and pd: "tensors_ptr td = Some p"
    and ta: "obj_at s a = Some t" and pa: "tensors_ptr t = Some p"
    and b: "block_at s p = Some b" and rc: "ref_cnt b \<noteq> 1"
  shows "copy_assign d a s = Some (s\<lparr>objs := (objs s)[d := Some t]\<rparr>)"
proof -
  have plt: "p < length (heap s)" and hp: "heap s ! p = Some b" using block_atD [OF b] by auto
  let ?s1 = "s\<lparr>heap := (heap s)[p := Some (b\<lparr>ref_cnt := ref_cnt b - 1\<rparr>)]\<rparr>"
  have u: "Unref p s = Some ?s1" using b rc by (simp add: Unref_def)
  have b1: "block_at ?s1 p = Some (b\<lparr>ref_cnt := ref_cnt b - 1\<rparr>)"
    using plt by (simp add: block_at_def)
  have "(heap s)[p := Some b] = heap s" using hp plt by (metis list_update_id)
  then have rf: "Ref p ?s1 = Some s" using b1 by (simp add: Ref_def)
  have e: "td\<lparr>element_shape := element_shape t, element_dtype := element_dtype t,
          max_num_elements := max_num_elements t, tensors_ptr := Some p\<rparr> = t"
    using pa by simp
  have "copy_assign d a s = Some (s\<lparr>objs := (objs s)[d := Some
          (td\<lparr>element_shape := element_shape t, element_dtype := element_dtype t,
          max_num_elements := max_num_elements t, tensors_ptr := Some p\<rparr>)]\<rparr>)"
    using ne td ta pd pa u rf by (simp add: copy_assign_def)
  then show ?thesis by (simp only: e)
qed

lemma copy_assign_other_block:
  assumes ne: "d \<noteq> a"
    and td: "obj_at s d = Some td" and pd: "tensors_ptr td = Some q"
    and e: "block_at s q = Some e"
    and ta: "obj_at s a = Some t" and pa: "tensors_ptr t = Some p"
    and b: "block_at s p = Some b" and qp: "q \<noteq> p"
  shows "copy_assign d a s =
           Some (s\<lparr>heap := (heap s)[q := (if ref_cnt e = 1 then None
                                            else Some (e\<lparr>ref_cnt := ref_cnt e - 1\<rparr>)),
                                     p := Some (b\<lparr>ref_cnt := ref_cnt b + 1\<rparr>)],
                   deleted := (if ref_cnt e = 1 then [q] else []) @ deleted s,
                   objs := (objs s)[d := Some t]\<rparr>)"
proof -
  have plt: "p < length (heap s)" and hp: "heap s ! p = Some b" using block_atD [OF b] by auto
  let ?s1 = "s\<lparr>heap := (heap s)[q := (if ref_cnt e = 1 then None
                                            else Some (e\<lparr>ref_cnt := ref_cnt e - 1\<rparr>))],
                deleted := (if ref_cnt e = 1 then [q] else []) @ deleted s\<rparr>"
  have u: "Unref q s = Some ?s1" using e by (simp add: Unref_def)
  have b1: "block_at ?s1 p = Some b" using plt hp qp by (simp add: block_at_def)
  let ?s2 = "?s1\<lparr>heap := (heap ?s1)[p := Some (b\<lparr>ref_cnt := ref_cnt b + 1\<rparr>)]\<rparr>"
  have rf: "Ref p ?s1 = Some ?s2" using b1 by (simp add: Ref_def)
  have eq: "td\<lparr>element_shape := element_shape t, element_dtype := element_dtype t,
          max_num_elements := max_num_elements t, tensors_ptr := Some p\<rparr> = t"
    using pa by simp
  have "copy_assign d a s = Some (?s2\<lparr>objs := (objs ?s2)[d := Some
          (td\<lparr>element_shape := element_shape t, element_dtype := element_dtype t,
          max_num_elements := max_num_elements t, tensors_ptr := Some p\<rparr>)]\<rparr>)"
    using ne td ta pd pa u rf by (simp add: copy_assign_def)
  then show ?thesis by (simp add: eq)
qed

lemma insert_seen_shared:
  assumes x: "tensors x s = Some (p, b)" and y: "tensors y s = Some (p, b)"
  shows "insert_seen x y k v s"
proof (cases "k \<in> fst ` set (values_tbl b)")
  case True
  then show ?thesis
    using x y by (simp add: insert_seen_def insert_tm_present lookup_value_eq)
next
  case False
  let ?s = "store_values p b (values_tbl b @ [(k, v)]) s"
  have tx: "tensors x ?s = Some (p, b\<lparr>values_tbl := values_tbl b @ [(k, v)]\<rparr>)"
    using x by (rule tensors_store_values)
  have ty: "tensors y ?s = Some (p, b\<lparr>values_tbl := values_tbl b @ [(k, v)]\<rparr>)"
    using y tensorsD [OF x] by (auto simp: tensors_eq_Some obj_at_store_values block_at_store_values)
  have m: "map_of (values_tbl b) k = None" using False by (simp add: map_of_eq_None_iff)
  show ?thesis
    using False m by (simp add: insert_seen_def insert_tm_absent [OF x False] tx ty
        lookup_value_eq [OF tx] lookup_value_eq [OF ty] map_add_def)
qed

lemma copy_constructed:
  assumes wf: "store_ok s" and u: "tensors a s = Some (p, b)" and ta: "obj_at s a = Some t"
  shows "\<exists>c s1. TensorMap_copy_ctor a s = Some (c, s1) \<and> c \<noteq> a \<and>
           obj_at s1 c = Some t \<and> obj_at s1 a = Some t \<and>
           tensors a s1 = Some (p, b\<lparr>ref_cnt := ref_cnt b + 1\<rparr>) \<and>
           tensors c s1 = tensors a s1 \<and>
           insert_seen c a k v s1 \<and> insert_seen a c k v s1 \<and>
           store_ok s1 \<and> deleted s1 = deleted s \<and>
           (\<forall>x. x \<noteq> p \<longrightarrow> block_at s1 x = block_at s x) \<and>
           (\<forall>j. j \<noteq> c \<longrightarrow> obj_at s1 j = obj_at s j)"
proof -
  from u ta have p: "tensors_ptr t = Some p" and b: "block_at s p = Some b"
    by (auto simp: tensors_eq_Some)
  have a: "a < length (objs s)" and plt: "p < length (heap s)"
    using obj_atD [OF ta] block_atD [OF b] by auto
  let ?c = "length (objs s)"
  let ?b1 = "b\<lparr>ref_cnt := ref_cnt b + 1\<rparr>"
  let ?s1 = "s\<lparr>heap := (heap s)[p := Some ?b1], objs := objs s @ [Some t]\<rparr>"
  have c: "TensorMap_copy_ctor a s = Some (?c, ?s1)" using ta p b by (rule copy_ctor_usable)
  have wf1: "store_ok ?s1" using wf c by (rule wf_copy_ctor)
  have oc: "obj_at ?s1 ?c = Some t" by (simp add: obj_at_def)
  have oa: "obj_at ?s1 a = Some t" using a ta by (simp add: obj_at_def nth_append)
  have b1: "block_at ?s1 p = Some ?b1" using plt by (simp add: block_at_def)
  have uc: "tensors ?c ?s1 = Some (p, ?b1)" using oc p b1 by (auto simp: tensors_eq_Some)
  have ua: "tensors a ?s1 = Some (p, ?b1)" using oa p b1 by (auto simp: tensors_eq_Some)
  have ob: "\<forall>x. x \<noteq> p \<longrightarrow> block_at ?s1 x = block_at s x" by (simp add: block_at_def)
  have oo: "\<forall>j. j \<noteq> ?c \<longrightarrow> obj_at ?s1 j = obj_at s j"
    by (simp add: obj_at_def nth_append)
  have d: "deleted ?s1 = deleted s" by simp
  have "insert_seen ?c a k v ?s1" using uc ua by (rule insert_seen_shared)
  moreover have "insert_seen a ?c k v ?s1" using ua uc by (rule insert_seen_shared)
  ultimately show ?thesis using c a oc oa uc ua wf1 ob oo d by simp
qed

lemma copy_assigned:
  assumes wf: "store_ok s" and u: "tensors a s = Some (p, b)" and ta: "obj_at s a = Some t"
    and ne: "d \<noteq> a" and ud: "tensors d s = Some (q, e)"
  shows "\<exists>s1. copy_assign d a s = Some s1 \<and> obj_at s1 d = Some t \<and> obj_at s1 a = Some t \<and>
           tensors a s1 = Some (p, b\<lparr>ref_cnt := ref_cnt b + (if q = p then 0 else 1)\<rparr>) \<and>
           tensors d s1 = tensors a s1 \<and>
           insert_seen d a k v s1 \<and> insert_seen a d k v s1 \<and>
           store_ok s1 \<and>
           (q = p \<longrightarrow> heap s1 = heap s \<and> deleted s1 = deleted s) \<and>
           (q \<noteq> p \<longrightarrow>
              block_at s1 q = (if ref_cnt e = 1 then None
                               else Some (e\<lparr>ref_cnt := ref_cnt e - 1\<rparr>)) \<and>
              deleted s1 = (if ref_cnt e = 1 then [q] else []) @ deleted s) \<and>
           (\<forall>x. x \<noteq> p \<and> x \<noteq> q \<longrightarrow> block_at s1 x = block_at s x) \<and>
           (\<forall>j. j \<noteq> d \<longrightarrow> obj_at s1 j = obj_at s j)"
proof -
  from u ta have p: "tensors_ptr t = Some p" and b: "block_at s p = Some b"
    by (auto simp: tensors_eq_Some)
  from ud obtain td where td: "obj_at s d = Some td" and pd: "tensors_ptr td = Some q"
    and e: "block_at s q = Some e" by (auto simp: tensors_eq_Some)
  have a: "a < length (objs s)" and plt: "p < length (heap s)" and d: "d < length (objs s)"
    and qlt: "q < length (heap s)"
    using obj_atD [OF ta] block_atD [OF b] obj_atD [OF td] block_atD [OF e] by auto
  let ?b1 = "b\<lparr>ref_cnt := ref_cnt b + (if q = p then 0 else 1)\<rparr>"
  have "\<exists>s1. copy_assign d a s = Some s1 \<and> obj_at s1 d = Some t \<and> obj_at s1 a = Some t \<and>
          block_at s1 p = Some ?b1 \<and>
          (q = p \<longrightarrow> heap s1 = heap s \<and> deleted s1 = deleted s) \<and>
          (q \<noteq> p \<longrightarrow>
              block_at s1 q = (if ref_cnt e = 1 then None
                               else Some (e\<lparr>ref_cnt := ref_cnt e - 1\<rparr>)) \<and>
              deleted s1 = (if ref_cnt e = 1 then [q] else []) @ deleted s) \<and>
          (\<forall>x. x \<noteq> p \<and> x \<noteq> q \<longrightarrow> block_at s1 x = block_at s x) \<and>
          (\<forall>j. j \<noteq> d \<longrightarrow> obj_at s1 j = obj_at s j)"
  proof (cases "q = p")
    case True
    with e b have eb: "e = b" by simp
    have "2 \<le> ref_cnt b" using wf ne ud u unfolding True eb by (rule wf_shared_ref_cnt)
    then have rc: "ref_cnt b \<noteq> 1" by simp
    let ?s1 = "s\<lparr>objs := (objs s)[d := Some t]\<rparr>"
    have c: "copy_assign d a s = Some ?s1"
      using ne td pd [unfolded True] ta p b rc by (rule copy_assign_same_block)
    have "obj_at ?s1 d = Some t" using d by (simp add: obj_at_def)
    moreover have "obj_at ?s1 a = Some t" using a ta ne by (simp add: obj_at_def)
    moreover have "block_at ?s1 p = Some ?b1" using b True by simp
    moreover have "\<forall>j. j \<noteq> d \<longrightarrow> obj_at ?s1 j = obj_at s j" by (simp add: obj_at_def)
    ultimately show ?thesis using c True by simp
  next
    case False
    let ?x = "if ref_cnt e = 1 then None else Some (e\<lparr>ref_cnt := ref_cnt e - 1\<rparr>)"
    let ?s1 = "s\<lparr>heap := (heap s)[q := ?x, p := Some (b\<lparr>ref_cnt := ref_cnt b + 1\<rparr>)],
                   deleted := (if ref_cnt e = 1 then [q] else []) @ deleted s,
                   objs := (objs s)[d := Some t]\<rparr>"
    have c: "copy_assign d a s = Some ?s1"
      using ne td pd e ta p b False by (rule copy_assign_other_block)
    have "obj_at ?s1 d = Some t" using d by (simp add: obj_at_def)
    moreover have "obj_at ?s1 a = Some t" using a ta ne by (simp add: obj_at_def)
    moreover have "block_at ?s1 p = Some ?b1" using plt False by (simp add: block_at_def)
    moreover have "block_at ?s1 q = ?x" using qlt False by (simp add: block_at_def)
    moreover have "deleted ?s1 = (if ref_cnt e = 1 then [q] else []) @ deleted s" by simp
    moreover have "\<forall>x. x \<noteq> p \<and> x \<noteq> q \<longrightarrow> block_at ?s1 x = block_at s x"
      by (simp add: block_at_def)
    moreover have "\<forall>j. j \<noteq> d \<longrightarrow> obj_at ?s1 j = obj_at s j" by (simp add: obj_at_def)
    ultimately show ?thesis using c False by simp
  qed
  then obtain s1 where c: "copy_assign d a s = Some s1" and od: "obj_at s1 d = Some t"
    and oa: "obj_at s1 a = Some t" and b1: "block_at s1 p = Some ?b1"
    and r1: "q = p \<longrightarrow> heap s1 = heap s \<and> deleted s1 = deleted s"
    and r2: "q \<noteq> p \<longrightarrow>
              block_at s1 q = (if ref_cnt e = 1 then None
                               else Some (e\<lparr>ref_cnt := ref_cnt e - 1\<rparr>)) \<and>
              deleted s1 = (if ref_cnt e = 1 then [q] else []) @ deleted s"
    and r3: "\<forall>x. x \<noteq> p \<and> x \<noteq> q \<longrightarrow> block_at s1 x = block_at s x"
    and r4: "\<forall>j. j \<noteq> d \<longrightarrow> obj_at s1 j = obj_at s j"
    by blast
  have wf1: "store_ok s1" using wf c by (rule wf_copy_assign)
  have ua: "tensors a s1 = Some (p, ?b1)" using oa p b1 by (auto simp: tensors_eq_Some)
  have ud1: "tensors d s1 = Some (p, ?b1)" using od p b1 by (auto simp: tensors_eq_Some)
  have td': "tensors d s1 = tensors a s1" using ua ud1 by simp
  have i1: "insert_seen d a k v s1" using ud1 ua by (rule insert_seen_shared)
  have i2: "insert_seen a d k v s1" using ua ud1 by (rule insert_seen_shared)
  show ?thesis
    by (intro exI [of _ s1] conjI) (fact c od oa ua td' i1 i2 wf1 r1 r2 r3 r4)+
qed

text \<open>
  C1, as the code has it. In a store that satisfies the invariant, with \<open>a\<close> a usable
  handle on block \<open>p\<close>: the copy constructor makes a new handle with the fields of
  \<open>a\<close>, on the same block, whose count it raises by exactly 1 and whose entries it
  leaves alone; no other block, no other object and no deletion is involved. Copy
  assignment \<^verbatim>\<open>d = a\<close> to another usable handle \<open>d\<close>, on block \<open>q\<close>, gives \<open>d\<close> the
  fields of \<open>a\<close> and leaves the entries of \<open>p\<close> alone. When \<open>d\<close> referenced another
  block, the count of \<open>p\<close> rises by exactly 1 and the reference to \<open>q\<close> is released:
  the count of \<open>q\<close> falls by 1, and \<open>q\<close> is deleted, once, exactly when that count
  reaches 0. When \<open>d\<close> already referenced \<open>p\<close>, no block and no count changes.
  Blocks other than \<open>p\<close> and \<open>q\<close> and objects other than \<open>d\<close> are as they were,
  and the invariant holds afterwards. Self-assignment changes nothing. After either
  copy, an insertion through one of the two handles is seen through the other.
\<close>

theorem copy_shares_storage:
  assumes wf: "store_ok s" and u: "tensors a s = Some (p, b)" and ta: "obj_at s a = Some t"
  shows "(\<exists>c s1. TensorMap_copy_ctor a s = Some (c, s1) \<and> c \<noteq> a \<and>
            obj_at s1 c = Some t \<and> obj_at s1 a = Some t \<and>
            tensors a s1 = Some (p, b\<lparr>ref_cnt := ref_cnt b + 1\<rparr>) \<and>
            tensors c s1 = tensors a s1 \<and>
            insert_seen c a k v s1 \<and> insert_seen a c k v s1 \<and>
            store_ok s1 \<and> deleted s1 = deleted s \<and>
            (\<forall>x. x \<noteq> p \<longrightarrow> block_at s1 x = block_at s x) \<and>
            (\<forall>j. j \<noteq> c \<longrightarrow> obj_at s1 j = obj_at s j))
         \<and> (\<forall>d q e. d \<noteq> a \<and> tensors d s = Some (q, e) \<longrightarrow>
              (\<exists>s1. copy_assign d a s = Some s1 \<and> obj_at s1 d = Some t \<and>
                 obj_at s1 a = Some t \<and>
                 tensors a s1
                   = Some (p, b\<lparr>ref_cnt := ref_cnt b + (if q = p then 0 else 1)\<rparr>) \<and>
                 tensors d s1 = tensors a s1 \<and>
                 insert_seen d a k v s1 \<and> insert_seen a d k v s1 \<and>
                 store_ok s1 \<and>
                 (q = p \<longrightarrow> heap s1 = heap s \<and> deleted s1 = deleted s) \<and>
                 (q \<noteq> p \<longrightarrow>
                    block_at s1 q = (if ref_cnt e = 1 then None
                                     else Some (e\<lparr>ref_cnt := ref_cnt e - 1\<rparr>)) \<and>
                    deleted s1 = (if ref_cnt e = 1 then [q] else []) @ deleted s) \<and>
                 (\<forall>x. x \<noteq> p \<and> x \<noteq> q \<longrightarrow> block_at s1 x = block_at s x) \<and>
                 (\<forall>j. j \<noteq> d \<longrightarrow> obj_at s1 j = obj_at s j)))
         \<and> copy_assign a a s = Some s"
proof (intro conjI allI impI)
  show "\<exists>c s1. TensorMap_copy_ctor a s = Some (c, s1) \<and> c \<noteq> a \<and>
            obj_at s1 c = Some t \<and> obj_at s1 a = Some t \<and>
            tensors a s1 = Some (p, b\<lparr>ref_cnt := ref_cnt b + 1\<rparr>) \<and>
            tensors c s1 = tensors a s1 \<and>
            insert_seen c a k v s1 \<and> insert_seen a c k v s1 \<and>
            store_ok s1 \<and> deleted s1 = deleted s \<and>
            (\<forall>x. x \<noteq> p \<longrightarrow> block_at s1 x = block_at s x) \<and>
            (\<forall>j. j \<noteq> c \<longrightarrow> obj_at s1 j = obj_at s j)"
    using wf u ta by (rule copy_constructed)
  show "copy_assign a a s = Some s" using ta by (simp add: copy_assign_self)
next
  fix d q e assume h: "d \<noteq> a \<and> tensors d s = Some (q, e)"
  from h have ne: "d \<noteq> a" and ud: "tensors d s = Some (q, e)" by simp_all
  show "\<exists>s1. copy_assign d a s = Some s1 \<and> obj_at s1 d = Some t \<and>
                 obj_at s1 a = Some t \<and>
                 tensors a s1
                   = Some (p, b\<lparr>ref_cnt := ref_cnt b + (if q = p then 0 else 1)\<rparr>) \<and>
                 tensors d s1 = tensors a s1 \<and>
                 insert_seen d a k v s1 \<and> insert_seen a d k v s1 \<and>
                 store_ok s1 \<and>
                 (q = p \<longrightarrow> heap s1 = heap s \<and> deleted s1 = deleted s) \<and>
                 (q \<noteq> p \<longrightarrow>
                    block_at s1 q = (if ref_cnt e = 1 then None
                                     else Some (e\<lparr>ref_cnt := ref_cnt e - 1\<rparr>)) \<and>
                    deleted s1 = (if ref_cnt e = 1 then [q] else []) @ deleted s) \<and>
                 (\<forall>x. x \<noteq> p \<and> x \<noteq> q \<longrightarrow> block_at s1 x = block_at s x) \<and>
                 (\<forall>j. j \<noteq> d \<longrightarrow> obj_at s1 j = obj_at s j)"
    using wf u ta ne ud by (rule copy_assigned)
qed

lemma tensors_two_maps:
  "tensors 0 two_maps = Some (0, \<lparr>ref_cnt = 1, values_tbl = []\<rparr>)"
  "tensors 1 two_maps = Some (1, \<lparr>ref_cnt = 1, values_tbl = []\<rparr>)"
  by (simp_all add: two_maps_eq tensors_def obj_at_def block_at_def)

theorem copy_shares_storage_witness:
  "store_ok two_maps \<and> tensors 0 two_maps = Some (0, \<lparr>ref_cnt = 1, values_tbl = []\<rparr>) \<and>
   tensors 1 two_maps = Some (1, \<lparr>ref_cnt = 1, values_tbl = []\<rparr>) \<and>
   (\<exists>c s1. TensorMap_copy_ctor 0 two_maps = Some (c, s1) \<and> c \<noteq> 0 \<and>
      tensors 0 s1 = Some (0, \<lparr>ref_cnt = 2, values_tbl = []\<rparr>) \<and>
      tensors c s1 = tensors 0 s1 \<and> insert_seen c 0 (5::nat) (7::nat) s1 \<and>
      store_ok s1 \<and> deleted s1 = []) \<and>
   (\<exists>s1. copy_assign 1 0 two_maps = Some s1 \<and>
      tensors 0 s1 = Some (0, \<lparr>ref_cnt = 2, values_tbl = []\<rparr>) \<and>
      tensors 1 s1 = tensors 0 s1 \<and> insert_seen 1 0 (5::nat) (7::nat) s1 \<and>
      store_ok s1 \<and> block_at s1 1 = None \<and> deleted s1 = [1])"
proof -
  have o0: "obj_at two_maps 0 = Some \<lparr>element_shape = (), element_dtype = (),
              max_num_elements = - 1, tensors_ptr = Some 0\<rparr>"
    and dl: "deleted two_maps = []"
    by (simp_all add: two_maps_eq obj_at_def)
  note t = copy_shares_storage [OF wf_two_maps tensors_two_maps(1) o0, of 5 7]
  from t have a: "\<exists>c s1. TensorMap_copy_ctor 0 two_maps = Some (c, s1) \<and> c \<noteq> 0 \<and>
      tensors 0 s1 = Some (0, \<lparr>ref_cnt = 2, values_tbl = []\<rparr>) \<and>
      tensors c s1 = tensors 0 s1 \<and> insert_seen c 0 (5::nat) (7::nat) s1 \<and>
      store_ok s1 \<and> deleted s1 = []"
    using dl by auto
  have "(1::nat) \<noteq> 0" by simp
  from t [THEN conjunct2, THEN conjunct1, rule_format, of 1,
      OF conjI [OF this tensors_two_maps(2)]]
  have b: "\<exists>s1. copy_assign 1 0 two_maps = Some s1 \<and>
      tensors 0 s1 = Some (0, \<lparr>ref_cnt = 2, values_tbl = []\<rparr>) \<and>
      tensors 1 s1 = tensors 0 s1 \<and> insert_seen 1 0 (5::nat) (7::nat) s1 \<and>
      store_ok s1 \<and> block_at s1 1 = None \<and> deleted s1 = [1]"
    using dl by auto
  from a b wf_two_maps tensors_two_maps show ?thesis by blast
qed

lemma shared_maps_eq:
  "shared_maps = \<lparr>objs = [Some \<lparr>element_shape = (), element_dtype = (),
                                 max_num_elements = - 1, tensors_ptr = Some 0\<rparr>,
                           Some \<lparr>element_shape = (), element_dtype = (),
                                 max_num_elements = - 1, tensors_ptr = Some 0\<rparr>],
                   heap = [Some \<lparr>ref_cnt = 2, values_tbl = []\<rparr>], deleted = []\<rparr>"
  by (simp add: shared_maps_def one_map_def ctor_eq init_def TensorMap_copy_ctor_def
      obj_at_def Ref_def block_at_def)

text \<open>
  C1 as stated fails for copy assignment to a handle that already shares the storage:
  with \<open>b\<close> a copy of \<open>a\<close> (count 2), the assignment \<^verbatim>\<open>b = a\<close> leaves the count at 2.
\<close>

theorem copy_assign_count_counterexample:
  "ref_count 0 shared_maps = Some 2
   \<and> Option.bind (copy_assign 1 0 shared_maps) (ref_count 0) = Some 2"
  by (simp add: shared_maps_eq copy_assign_def obj_at_def Unref_def Ref_def block_at_def
      ref_count_def tensors_def)

lemma fhm_try_emplace_eq:
  "fhm_try_emplace k v vs =
     (if k \<in> fst ` set vs then ((fhm_find k vs, False), vs)
      else ((length vs, True), vs @ [(k, v)]))"
  by (simp add: fhm_try_emplace_def fhm_find_lt_iff)

lemma fhm_erase_absent: "k \<notin> fst ` set vs \<Longrightarrow> fhm_erase k vs = (0, vs)"
  by (simp add: fhm_erase_def fhm_find_lt_iff)

lemma fhm_erase_present:
  "k \<in> fst ` set vs \<Longrightarrow>
   fhm_erase k vs = (1, take (fhm_find k vs) vs @ drop (Suc (fhm_find k vs)) vs)"
  by (simp add: fhm_erase_def fhm_find_lt_iff Let_def)

text \<open>A table operation through \<open>x\<close> writes the block of \<open>x\<close> only.\<close>

lemma unaffected_store:
  assumes x: "tensors x s = Some (p, b)" and y: "tensors y s = Some (q, e)" and ne: "p \<noteq> q"
  shows "unaffected y s (Some (r, store_values p b vs s))"
proof -
  have "p < length (heap s)" using tensorsD [OF x] by auto
  then have "tensors y (store_values p b vs s) = Some (q, e)"
    using y ne by (auto simp: tensors_eq_Some obj_at_store_values block_at_store_values)
  then show ?thesis using y by (simp add: unaffected_def)
qed

lemma unaffected_insert:
  assumes x: "tensors x s = Some (p, b)" and y: "tensors y s = Some (q, e)" and ne: "p \<noteq> q"
  shows "unaffected y s (insert_tm x k v s)"
proof -
  obtain r vs where tr: "fhm_try_emplace k v (values_tbl b) = (r, vs)" by (cases "fhm_try_emplace k v (values_tbl b)")
  then have "insert_tm x k v s = Some (snd r, store_values p b vs s)"
    using x by (simp add: insert_tm_def)
  then show ?thesis using unaffected_store [OF x y ne] by simp
qed

lemma unaffected_erase:
  assumes x: "tensors x s = Some (p, b)" and y: "tensors y s = Some (q, e)" and ne: "p \<noteq> q"
  shows "unaffected y s (erase x k s)"
proof -
  obtain n vs where "fhm_erase k (values_tbl b) = (n, vs)" by (cases "fhm_erase k (values_tbl b)")
  then have "erase x k s = Some (n, store_values p b vs s)"
    using x by (simp add: erase_def)
  then show ?thesis using unaffected_store [OF x y ne] by simp
qed

lemma Copy_usable:
  assumes u: "tensors a s = Some (p, b)" and ta: "obj_at s a = Some t"
  shows "Copy sh0 dt0 a s =
           Some (length (objs s),
                 s\<lparr>heap := heap s @ [Some \<lparr>ref_cnt = 1, values_tbl = values_tbl b\<rparr>],
                   objs := objs s @ [Some (t\<lparr>tensors_ptr := Some (length (heap s))\<rparr>)]\<rparr>)"
proof -
  from u ta have p: "tensors_ptr t = Some p" and b: "block_at s p = Some b"
    by (auto simp: tensors_eq_Some)
  have a: "a < length (objs s)" and oa: "objs s ! a = Some t"
    and plt: "p < length (heap s)" and hp: "heap s ! p = Some b"
    using obj_atD [OF ta] block_atD [OF b] by auto
  have e: "\<lparr>element_shape = element_shape t, element_dtype = element_dtype t,
            max_num_elements = max_num_elements t, tensors_ptr = Some (length (heap s))\<rparr>
           = t\<lparr>tensors_ptr := Some (length (heap s))\<rparr>"
    by simp
  have "Copy sh0 dt0 a s =
           Some (length (objs s),
                 s\<lparr>heap := heap s @ [Some \<lparr>ref_cnt = 1, values_tbl = values_tbl b\<rparr>],
                   objs := objs s @ [Some \<lparr>element_shape = element_shape t,
                     element_dtype = element_dtype t,
                     max_num_elements = max_num_elements t,
                     tensors_ptr = Some (length (heap s))\<rparr>]\<rparr>)"
    using ta a oa plt hp p
    by (simp add: Copy_def ctor_eq obj_at_def tensors_def block_at_def nth_append
        store_values_def)
  then show ?thesis by (simp only: e)
qed

lemma derived_copy_isolated:
  assumes u: "tensors a s = Some (p, b)" and ta: "obj_at s a = Some t"
    and s1: "s1 = s\<lparr>heap := heap s @ [Some \<lparr>ref_cnt = 1, values_tbl = vs\<rparr>],
                   objs := objs s @ [Some (t\<lparr>tensors_ptr := Some (length (heap s))\<rparr>)]\<rparr>"
  shows "length (objs s) \<noteq> a \<and> block_at s (length (heap s)) = None \<and>
         tensors (length (objs s)) s1 = Some (length (heap s), \<lparr>ref_cnt = 1, values_tbl = vs\<rparr>) \<and>
         tensors a s1 = Some (p, b) \<and> length (heap s) \<noteq> p \<and>
         map_option header (obj_at s1 (length (objs s))) = map_option header (obj_at s a) \<and>
         obj_at s1 (length (objs s)) \<noteq> None \<and>
         unaffected a s1 (insert_tm (length (objs s)) k v s1) \<and>
         unaffected a s1 (erase (length (objs s)) k s1) \<and>
         unaffected (length (objs s)) s1 (insert_tm a k v s1) \<and>
         unaffected (length (objs s)) s1 (erase a k s1)"
proof -
  let ?c = "length (objs s)" and ?q = "length (heap s)"
  from u ta have p: "tensors_ptr t = Some p" and b: "block_at s p = Some b"
    by (auto simp: tensors_eq_Some)
  have a: "a < length (objs s)" and oa: "objs s ! a = Some t"
    and plt: "p < length (heap s)" and hp: "heap s ! p = Some b"
    using obj_atD [OF ta] block_atD [OF b] by auto
  have oc: "obj_at s1 ?c = Some (t\<lparr>tensors_ptr := Some ?q\<rparr>)"
    by (simp add: s1 obj_at_def)
  have uc: "tensors ?c s1 = Some (?q, \<lparr>ref_cnt = 1, values_tbl = vs\<rparr>)"
    by (simp add: s1 tensors_def obj_at_def block_at_def)
  have ua: "tensors a s1 = Some (p, b)"
    using a oa plt hp p by (simp add: s1 tensors_def obj_at_def block_at_def nth_append)
  have ne: "?q \<noteq> p" using plt by simp
  have "unaffected a s1 (insert_tm ?c k v s1)" using uc ua ne by (rule unaffected_insert)
  moreover have "unaffected a s1 (erase ?c k s1)" using uc ua ne by (rule unaffected_erase)
  moreover have "unaffected ?c s1 (insert_tm a k v s1)"
    using ua uc ne [symmetric] by (rule unaffected_insert)
  moreover have "unaffected ?c s1 (erase a k s1)"
    using ua uc ne [symmetric] by (rule unaffected_erase)
  moreover have "block_at s ?q = None" by (simp add: block_at_def)
  moreover have "map_option header (obj_at s1 ?c) = map_option header (obj_at s a)"
    using oc ta by (simp add: header_def)
  ultimately show ?thesis using a uc ua ne oc by simp
qed

text \<open>
  C2. \<^verbatim>\<open>a.Copy()\<close> on a usable handle returns a new handle \<open>c\<close> on a fresh block with
  count 1 and with the table of \<open>a\<close>; the header fields of \<open>c\<close> are those of \<open>a\<close>;
  the block of \<open>a\<close> is as it was. Afterwards \<^verbatim>\<open>insert\<close> and \<^verbatim>\<open>erase\<close> through \<open>c\<close>
  leave the block of \<open>a\<close> as it is (entries and size), and the other way round.
\<close>

theorem Copy_isolation:
  assumes u: "tensors a s = Some (p, b)"
  shows "\<exists>c s1. Copy sh0 dt0 a s = Some (c, s1) \<and> c \<noteq> a \<and>
           block_at s (length (heap s)) = None \<and>
           tensors c s1 = Some (length (heap s), \<lparr>ref_cnt = 1, values_tbl = values_tbl b\<rparr>) \<and>
           tensors a s1 = Some (p, b) \<and> length (heap s) \<noteq> p \<and>
           map_option header (obj_at s1 c) = map_option header (obj_at s a) \<and>
           obj_at s1 c \<noteq> None \<and>
           unaffected a s1 (insert_tm c k v s1) \<and> unaffected a s1 (erase c k s1) \<and>
           unaffected c s1 (insert_tm a k v s1) \<and> unaffected c s1 (erase a k s1)"
proof -
  from u obtain t where ta: "obj_at s a = Some t" by (auto simp: tensors_eq_Some)
  note c = Copy_usable [OF u ta, of sh0 dt0]
  note d = derived_copy_isolated [OF u ta refl, of "values_tbl b" k v]
  from c d show ?thesis by blast
qed


lemma filled_map_eq:
  "filled_map = \<lparr>objs = [Some \<lparr>element_shape = (), element_dtype = (),
                                 max_num_elements = - 1, tensors_ptr = Some 0\<rparr>],
                  heap = [Some \<lparr>ref_cnt = 1, values_tbl = [(5, 7), (6, 8)]\<rparr>], deleted = []\<rparr>"
  by (simp add: filled_map_def one_map_def ctor_eq init_def insert_tm_def tensors_def
      obj_at_def block_at_def fhm_try_emplace_def store_values_def)

lemma tensors_filled_map:
  "tensors 0 filled_map = Some (0, \<lparr>ref_cnt = 1, values_tbl = [(5, 7), (6, 8)]\<rparr>)"
  by (simp add: filled_map_eq tensors_def obj_at_def block_at_def)

theorem Copy_isolation_witness:
  "tensors 0 filled_map = Some (0, \<lparr>ref_cnt = 1, values_tbl = [(5, 7), (6, 8)]\<rparr>) \<and>
   (\<exists>c s1. Copy () () 0 filled_map = Some (c, s1) \<and> c \<noteq> 0 \<and>
      tensors c s1 = Some (1, \<lparr>ref_cnt = 1, values_tbl = [(5, 7), (6, 8)]\<rparr>) \<and>
      tensors 0 s1 = Some (0, \<lparr>ref_cnt = 1, values_tbl = [(5, 7), (6, 8)]\<rparr>) \<and>
      unaffected 0 s1 (insert_tm c (9::nat) (1::nat) s1) \<and> unaffected 0 s1 (erase c 5 s1) \<and>
      unaffected c s1 (insert_tm 0 9 1 s1) \<and> unaffected c s1 (erase 0 5 s1))"
proof -
  have h: "length (heap filled_map) = 1" by (simp add: filled_map_eq)
  have a: "\<exists>c s1. Copy () () 0 filled_map = Some (c, s1) \<and> c \<noteq> 0 \<and>
      tensors c s1 = Some (1, \<lparr>ref_cnt = 1, values_tbl = [(5, 7), (6, 8)]\<rparr>) \<and>
      tensors 0 s1 = Some (0, \<lparr>ref_cnt = 1, values_tbl = [(5, 7), (6, 8)]\<rparr>) \<and>
      unaffected 0 s1 (insert_tm c (9::nat) (1::nat) s1) \<and> unaffected 0 s1 (erase c 9 s1) \<and>
      unaffected c s1 (insert_tm 0 9 1 s1) \<and> unaffected c s1 (erase 0 9 s1)"
    using Copy_isolation [OF tensors_filled_map, of "()" "()" 9 1] by (auto simp: h)
  have b: "\<exists>c s1. Copy () () 0 filled_map = Some (c, s1) \<and>
      unaffected 0 s1 (erase c 5 s1) \<and> unaffected c s1 (erase 0 5 s1)"
    using Copy_isolation [OF tensors_filled_map, of "()" "()" 5 1] by blast
  from a b tensors_filled_map show ?thesis by auto
qed

subsection \<open>\<^verbatim>\<open>Zeros\<close>\<close>

lemma Zeros_loop_set:
  "set (Zeros_loop zero es out)
     = set out \<union> {(k, zero) | k. k \<in> fst ` set es \<and> k \<notin> fst ` set out}"
proof (induction es arbitrary: out)
  case Nil
  then show ?case by simp
next
  case (Cons e es)
  show ?case
    by (cases "fst e \<in> fst ` set out") (auto simp: Cons.IH fhm_try_emplace_eq)
qed

lemma Zeros_loop_distinct:
  "distinct (map fst out) \<Longrightarrow> distinct (map fst (Zeros_loop zero es out))"
proof (induction es arbitrary: out)
  case Nil
  then show ?case by simp
next
  case (Cons e es)
  have "distinct (map fst (snd (fhm_try_emplace (fst e) zero out)))"
    using Cons.prems by (auto simp: fhm_try_emplace_eq)
  then show ?case by (simp add: Cons.IH)
qed

lemma Zeros_loop_keys: "fst ` set (Zeros_loop zero es []) = fst ` set es"
  by (force simp: Zeros_loop_set)

lemma Zeros_loop_values: "snd ` set (Zeros_loop zero es []) \<subseteq> {zero}"
  by (auto simp: Zeros_loop_set)

lemma Zeros_loop_map_of:
  "map_of (Zeros_loop zero es []) k = (if k \<in> fst ` set es then Some zero else None)"
proof (cases "k \<in> fst ` set es")
  case True
  then have "(k, zero) \<in> set (Zeros_loop zero es [])" by (auto simp: Zeros_loop_set)
  moreover have "distinct (map fst (Zeros_loop zero es []))"
    by (rule Zeros_loop_distinct) simp
  ultimately show ?thesis using True by simp
next
  case False
  then have "k \<notin> fst ` set (Zeros_loop zero es [])" by (simp add: Zeros_loop_keys)
  then show ?thesis using False by (simp add: map_of_eq_None_iff)
qed

lemma Zeros_usable:
  assumes u: "tensors a s = Some (p, b)" and ta: "obj_at s a = Some t"
  shows "Zeros sh0 dt0 zero a s =
           Some (length (objs s),
                 s\<lparr>heap := heap s @ [Some \<lparr>ref_cnt = 1,
                                            values_tbl = Zeros_loop zero (values_tbl b) []\<rparr>],
                   objs := objs s @ [Some (t\<lparr>tensors_ptr := Some (length (heap s))\<rparr>)]\<rparr>)"
proof -
  from u ta have p: "tensors_ptr t = Some p" and b: "block_at s p = Some b"
    by (auto simp: tensors_eq_Some)
  have a: "a < length (objs s)" and oa: "objs s ! a = Some t"
    and plt: "p < length (heap s)" and hp: "heap s ! p = Some b"
    using obj_atD [OF ta] block_atD [OF b] by auto
  have e: "\<lparr>element_shape = element_shape t, element_dtype = element_dtype t,
            max_num_elements = max_num_elements t, tensors_ptr = Some (length (heap s))\<rparr>
           = t\<lparr>tensors_ptr := Some (length (heap s))\<rparr>"
    by simp
  have "Zeros sh0 dt0 zero a s =
           Some (length (objs s),
                 s\<lparr>heap := heap s @ [Some \<lparr>ref_cnt = 1,
                                            values_tbl = Zeros_loop zero (values_tbl b) []\<rparr>],
                   objs := objs s @ [Some \<lparr>element_shape = element_shape t,
                     element_dtype = element_dtype t,
                     max_num_elements = max_num_elements t,
                     tensors_ptr = Some (length (heap s))\<rparr>]\<rparr>)"
    using ta a oa plt hp p
    by (simp add: Zeros_def ctor_eq obj_at_def tensors_def block_at_def nth_append
        store_values_def)
  then show ?thesis by (simp only: e)
qed

text \<open>
  C7. \<^verbatim>\<open>a.Zeros()\<close> on a usable handle returns a new handle \<open>c\<close> on a fresh block with
  count 1 whose table has exactly the keys of \<open>a\<close>, each once and each with the value
  \<^verbatim>\<open>Tensor(0)\<close>; the header fields of \<open>c\<close> are those of \<open>a\<close>; the block of \<open>a\<close> is as
  it was. Afterwards \<^verbatim>\<open>insert\<close> and \<^verbatim>\<open>erase\<close> through one of the two handles leave the
  block of the other as it is.
\<close>

theorem Zeros_structure:
  assumes u: "tensors a s = Some (p, b)"
  shows "\<exists>c s1 zs. Zeros sh0 dt0 zero a s = Some (c, s1) \<and> c \<noteq> a \<and>
           block_at s (length (heap s)) = None \<and>
           tensors c s1 = Some (length (heap s), \<lparr>ref_cnt = 1, values_tbl = zs\<rparr>) \<and>
           fst ` set zs = fst ` set (values_tbl b) \<and> snd ` set zs \<subseteq> {zero} \<and>
           distinct (map fst zs) \<and>
           (\<forall>k'. lookup_value c k' s1
                   = (if k' \<in> fst ` set (values_tbl b) then Some zero else None)) \<and>
           tensors a s1 = Some (p, b) \<and> length (heap s) \<noteq> p \<and>
           map_option header (obj_at s1 c) = map_option header (obj_at s a) \<and>
           obj_at s1 c \<noteq> None \<and>
           unaffected a s1 (insert_tm c k v s1) \<and> unaffected a s1 (erase c k s1) \<and>
           unaffected c s1 (insert_tm a k v s1) \<and> unaffected c s1 (erase a k s1)"
proof -
  from u obtain t where ta: "obj_at s a = Some t" by (auto simp: tensors_eq_Some)
  let ?zs = "Zeros_loop zero (values_tbl b) []"
  note c = Zeros_usable [OF u ta, of sh0 dt0 zero]
  note d = derived_copy_isolated [OF u ta refl, of ?zs k v]
  have l: "\<forall>k'. lookup_value (length (objs s))  k'
      (s\<lparr>heap := heap s @ [Some \<lparr>ref_cnt = 1, values_tbl = ?zs\<rparr>],
         objs := objs s @ [Some (t\<lparr>tensors_ptr := Some (length (heap s))\<rparr>)]\<rparr>)
      = (if k' \<in> fst ` set (values_tbl b) then Some zero else None)"
    using d by (simp add: lookup_value_eq Zeros_loop_map_of)
  have z: "fst ` set ?zs = fst ` set (values_tbl b)" "snd ` set ?zs \<subseteq> {zero}"
    "distinct (map fst ?zs)"
    by (simp_all add: Zeros_loop_keys Zeros_loop_values Zeros_loop_distinct)
  from c d l z show ?thesis by blast
qed

theorem Zeros_structure_witness:
  "tensors 0 filled_map = Some (0, \<lparr>ref_cnt = 1, values_tbl = [(5, 7), (6, 8)]\<rparr>) \<and>
   (\<exists>c s1 zs. Zeros () () 0 0 filled_map = Some (c, s1) \<and> c \<noteq> 0 \<and>
      tensors c s1 = Some (1, \<lparr>ref_cnt = 1, values_tbl = zs\<rparr>) \<and>
      fst ` set zs = {5, 6} \<and> snd ` set zs \<subseteq> {0} \<and>
      lookup_value c 5 s1 = Some 0 \<and> lookup_value c 7 s1 = None \<and>
      tensors 0 s1 = Some (0, \<lparr>ref_cnt = 1, values_tbl = [(5, 7), (6, 8)]\<rparr>) \<and>
      unaffected 0 s1 (insert_tm c (9::nat) (1::nat) s1) \<and>
      unaffected c s1 (erase 0 9 s1))"
proof -
  have h: "length (heap filled_map) = 1" by (simp add: filled_map_eq)
  from Zeros_structure [OF tensors_filled_map, of "()" "()" 0 9 1]
  obtain c s1 zs where *: "Zeros () () 0 0 filled_map = Some (c, s1)" "c \<noteq> 0"
    "tensors c s1 = Some (1, \<lparr>ref_cnt = 1, values_tbl = zs\<rparr>)"
    "fst ` set zs = {5, 6}" "snd ` set zs \<subseteq> {0}"
    "\<forall>k'. lookup_value c k' s1 = (if k' \<in> {5, 6} then Some 0 else None)"
    "tensors 0 s1 = Some (0, \<lparr>ref_cnt = 1, values_tbl = [(5, 7), (6, 8)]\<rparr>)"
    "unaffected 0 s1 (insert_tm c (9::nat) (1::nat) s1)"
    "unaffected c s1 (erase 0 9 s1)"
    by (auto simp: h)
  from *(6) have "lookup_value c 5 s1 = Some 0" "lookup_value c 7 s1 = None" by simp_all
  with * tensors_filled_map show ?thesis by blast
qed

subsection \<open>\<^verbatim>\<open>keys\<close>\<close>

lemma keys_loop_eq: "keys_loop cast es ks = ks @ map (\<lambda>e. cast (fst e)) es"
  by (induction es arbitrary: ks) simp_all

lemma keys_eq:
  assumes "tensors this s = Some (p, b)"
  shows "keys dflt cast this s
           = Some (replicate (length (values_tbl b)) dflt @ map (\<lambda>e. cast (fst e)) (values_tbl b))"
  using assms by (simp add: keys_def keys_loop_eq)

lemma keys_length:
  assumes "tensors this s = Some (p, b)"
  shows "map_option length (keys dflt cast this s) = Some (2 * length (values_tbl b))"
  using assms by (simp add: keys_eq)

text \<open>
  C6. The code at a map with the two entries \<open>5 \<mapsto> 7\<close> and \<open>6 \<mapsto> 8\<close> (with
  \<^verbatim>\<open>Tensor()\<close> shown as 99): \<^verbatim>\<open>size()\<close> is 2, and \<^verbatim>\<open>keys()\<close> returns four elements, two
  default-constructed tensors followed by the two keys.
\<close>

theorem keys_has_default_prefix:
  "size_tm 0 filled_map = Some 2 \<and> keys 99 id 0 filled_map = Some [99, 99, 5, 6]"
  by (simp add: keys_eq [OF tensors_filled_map] size_tm_def tensors_filled_map
      numeral_2_eq_2)

subsection \<open>\<^verbatim>\<open>operator[]\<close> and \<^verbatim>\<open>replace\<close>\<close>

lemma fhm_find_snoc: "k \<notin> fst ` set vs \<Longrightarrow> fhm_find k (vs @ [(k, v)]) = length vs"
  by (simp add: fhm_find_append)

lemma map_of_update_found:
  "fhm_find k vs < length vs \<Longrightarrow>
   map_of (vs[fhm_find k vs := (k, v)]) = (map_of vs)(k \<mapsto> v)"
proof (induction vs)
  case Nil
  then show ?case by simp
next
  case (Cons e es)
  show ?case
  proof (cases "fst e = k")
    case True
    then show ?thesis by (cases e) auto
  next
    case False
    with Cons show ?thesis by (cases e) (auto simp: fun_upd_twist)
  qed
qed

lemma subscript_absent:
  assumes u: "tensors this s = Some (p, b)" and k: "k \<notin> fst ` set (values_tbl b)"
  shows "subscript dflt this k s
           = Some ((p, length (values_tbl b)), store_values p b (values_tbl b @ [(k, dflt)]) s)"
  using assms by (simp add: subscript_def fhm_try_emplace_eq)

lemma subscript_present:
  assumes u: "tensors this s = Some (p, b)" and k: "k \<in> fst ` set (values_tbl b)"
  shows "subscript dflt this k s = Some ((p, fhm_find k (values_tbl b)), s)"
  using assms tensorsD [OF u] by (auto simp: subscript_def fhm_try_emplace_eq store_values_same)

lemma read_ref_found:
  assumes u: "tensors this s = Some (p, b)" and k: "k \<in> fst ` set (values_tbl b)"
  shows "read_ref (p, fhm_find k (values_tbl b)) s = map_of (values_tbl b) k"
    and "lookup this k s = Some (p, fhm_find k (values_tbl b))"
proof -
  from tensorsD [OF u] have b: "block_at s p = Some b" by auto
  have lt: "fhm_find k (values_tbl b) < length (values_tbl b)"
    using k by (simp add: fhm_find_lt_iff)
  show "read_ref (p, fhm_find k (values_tbl b)) s = map_of (values_tbl b) k"
    using b lt by (simp add: read_ref_def fhm_find_map_of)
  show "lookup this k s = Some (p, fhm_find k (values_tbl b))"
    using u lt by (simp add: lookup_def)
qed

lemma write_ref_found:
  assumes u: "tensors this s = Some (p, b)" and k: "k \<in> fst ` set (values_tbl b)"
  shows "write_ref (p, fhm_find k (values_tbl b)) v s
           = Some (store_values p b ((values_tbl b)[fhm_find k (values_tbl b) := (k, v)]) s)"
proof -
  from tensorsD [OF u] have b: "block_at s p = Some b" by auto
  have lt: "fhm_find k (values_tbl b) < length (values_tbl b)"
    using k by (simp add: fhm_find_lt_iff)
  show ?thesis using b lt by (simp add: write_ref_def fhm_find_fst)
qed

lemma replace_result:
  assumes u: "tensors this s = Some (p, b)"
  shows "\<exists>vs. replace dflt this k v s = Some (True, store_values p b vs s) \<and>
           map_of vs = (map_of (values_tbl b))(k \<mapsto> v) \<and>
           length vs = (if k \<in> fst ` set (values_tbl b) then length (values_tbl b)
                        else Suc (length (values_tbl b)))"
proof (cases "k \<in> fst ` set (values_tbl b)")
  case True
  let ?vs = "(values_tbl b)[fhm_find k (values_tbl b) := (k, v)]"
  have "replace dflt this k v s = Some (True, store_values p b ?vs s)"
    using True u by (simp add: replace_def subscript_present write_ref_found)
  moreover have "map_of ?vs = (map_of (values_tbl b))(k \<mapsto> v)"
    using True by (simp add: map_of_update_found fhm_find_lt_iff)
  ultimately show ?thesis using True by (intro exI [of _ ?vs]) simp
next
  case False
  let ?vs1 = "values_tbl b @ [(k, dflt)]"
  let ?s1 = "store_values p b ?vs1 s"
  let ?b1 = "b\<lparr>values_tbl := ?vs1\<rparr>"
  have u1: "tensors this ?s1 = Some (p, ?b1)" using u by (rule tensors_store_values)
  have k1: "k \<in> fst ` set (values_tbl ?b1)" by simp
  have f: "fhm_find k ?vs1 = length (values_tbl b)" using False by (rule fhm_find_snoc)
  have w: "write_ref (p, length (values_tbl b)) v ?s1
             = Some (store_values p ?b1 (values_tbl b @ [(k, v)]) ?s1)"
    using write_ref_found [OF u1 k1, of v] by (simp add: f)
  have "store_values p ?b1 (values_tbl b @ [(k, v)]) ?s1
          = store_values p b (values_tbl b @ [(k, v)]) s"
    by (simp add: store_values_def)
  with w have "replace dflt this k v s
                 = Some (True, store_values p b (values_tbl b @ [(k, v)]) s)"
    using False u by (simp add: replace_def subscript_absent)
  moreover have "map_of (values_tbl b @ [(k, v)]) = (map_of (values_tbl b))(k \<mapsto> v)"
  proof
    fix x
    have "map_of (values_tbl b) k = None" using False by (simp add: map_of_eq_None_iff)
    then show "map_of (values_tbl b @ [(k, v)]) x = ((map_of (values_tbl b))(k \<mapsto> v)) x"
      by (cases "x = k") (simp_all add: map_add_def split: option.splits)
  qed
  ultimately show ?thesis using False by (intro exI [of _ "values_tbl b @ [(k, v)]"]) simp
qed

text \<open>
  C10. \<^verbatim>\<open>operator[](k)\<close> on a usable handle: when \<open>k\<close> is absent, the entry
  \<open>k \<mapsto> Tensor()\<close> is added, the size grows by one, and the returned reference is the
  one \<^verbatim>\<open>lookup(k)\<close> gives afterwards and reads \<^verbatim>\<open>Tensor()\<close>; when \<open>k\<close> is present, the
  store is unchanged and the returned reference is the one \<^verbatim>\<open>lookup(k)\<close> gives and reads
  the stored value. \<^verbatim>\<open>replace(k, v)\<close> returns true, and afterwards \<open>k\<close> has the value
  \<open>v\<close>, the other keys have their values, and the size has grown by one exactly when
  \<open>k\<close> was absent.
\<close>

theorem subscript_inserts_default:
  assumes u: "tensors this s = Some (p, b)"
  shows "(\<exists>r s1. subscript dflt this k s = Some (r, s1) \<and>
            (k \<notin> fst ` set (values_tbl b) \<longrightarrow>
               tensors this s1 = Some (p, b\<lparr>values_tbl := values_tbl b @ [(k, dflt)]\<rparr>) \<and>
               size_tm this s1 = Some (Suc (length (values_tbl b))) \<and>
               lookup this k s1 = Some r \<and> read_ref r s1 = Some dflt) \<and>
            (k \<in> fst ` set (values_tbl b) \<longrightarrow>
               s1 = s \<and> lookup this k s = Some r \<and> read_ref r s = map_of (values_tbl b) k))
         \<and> (\<exists>s2. replace dflt this k v s = Some (True, s2) \<and>
              lookup_value this k s2 = Some v \<and>
              (\<forall>k'. k' \<noteq> k \<longrightarrow> lookup_value this k' s2 = lookup_value this k' s) \<and>
              size_tm this s2 = Some (if k \<in> fst ` set (values_tbl b)
                                      then length (values_tbl b)
                                      else Suc (length (values_tbl b))))"
proof (rule conjI)
  show "\<exists>r s1. subscript dflt this k s = Some (r, s1) \<and>
            (k \<notin> fst ` set (values_tbl b) \<longrightarrow>
               tensors this s1 = Some (p, b\<lparr>values_tbl := values_tbl b @ [(k, dflt)]\<rparr>) \<and>
               size_tm this s1 = Some (Suc (length (values_tbl b))) \<and>
               lookup this k s1 = Some r \<and> read_ref r s1 = Some dflt) \<and>
            (k \<in> fst ` set (values_tbl b) \<longrightarrow>
               s1 = s \<and> lookup this k s = Some r \<and> read_ref r s = map_of (values_tbl b) k)"
  proof (cases "k \<in> fst ` set (values_tbl b)")
    case True
    then show ?thesis
      using subscript_present [OF u True, of dflt] read_ref_found [OF u True] by simp
  next
    case False
    let ?b1 = "b\<lparr>values_tbl := values_tbl b @ [(k, dflt)]\<rparr>"
    let ?s1 = "store_values p b (values_tbl b @ [(k, dflt)]) s"
    have u1: "tensors this ?s1 = Some (p, ?b1)" using u by (rule tensors_store_values)
    have k1: "k \<in> fst ` set (values_tbl ?b1)" by simp
    have f: "fhm_find k (values_tbl b @ [(k, dflt)]) = length (values_tbl b)"
      using False by (rule fhm_find_snoc)
    have m: "map_of (values_tbl b) k = None" using False by (simp add: map_of_eq_None_iff)
    have "lookup this k ?s1 = Some (p, length (values_tbl b))"
      using read_ref_found(2) [OF u1 k1] by (simp add: f)
    moreover have "read_ref (p, length (values_tbl b)) ?s1 = Some dflt"
      using read_ref_found(1) [OF u1 k1] m by (simp add: f map_add_def)
    moreover have "size_tm this ?s1 = Some (Suc (length (values_tbl b)))"
      using u1 by (simp add: size_tm_def)
    ultimately show ?thesis
      using False u1 subscript_absent [OF u False, of dflt] by simp
  qed
next
  from replace_result [OF u, of dflt k v] obtain vs where
    r: "replace dflt this k v s = Some (True, store_values p b vs s)"
    and m: "map_of vs = (map_of (values_tbl b))(k \<mapsto> v)"
    and l: "length vs = (if k \<in> fst ` set (values_tbl b) then length (values_tbl b)
                        else Suc (length (values_tbl b)))"
    by blast
  have u2: "tensors this (store_values p b vs s) = Some (p, b\<lparr>values_tbl := vs\<rparr>)"
    using u by (rule tensors_store_values)
  have "lookup_value this k (store_values p b vs s) = Some v"
    by (simp add: lookup_value_eq [OF u2] m)
  moreover have "\<forall>k'. k' \<noteq> k \<longrightarrow>
      lookup_value this k' (store_values p b vs s) = lookup_value this k' s"
    by (simp add: lookup_value_eq [OF u2] lookup_value_eq [OF u] m)
  moreover have "size_tm this (store_values p b vs s)
      = Some (if k \<in> fst ` set (values_tbl b) then length (values_tbl b)
              else Suc (length (values_tbl b)))"
    using u2 l by (simp add: size_tm_def)
  ultimately show "\<exists>s2. replace dflt this k v s = Some (True, s2) \<and>
              lookup_value this k s2 = Some v \<and>
              (\<forall>k'. k' \<noteq> k \<longrightarrow> lookup_value this k' s2 = lookup_value this k' s) \<and>
              size_tm this s2 = Some (if k \<in> fst ` set (values_tbl b)
                                      then length (values_tbl b)
                                      else Suc (length (values_tbl b)))"
    using r by blast
qed

theorem subscript_inserts_default_witness:
  "tensors 0 filled_map = Some (0, \<lparr>ref_cnt = 1, values_tbl = [(5, 7), (6, 8)]\<rparr>) \<and>
   (\<exists>r s1. subscript 0 0 (9::nat) filled_map = Some (r, s1) \<and>
      size_tm 0 s1 = Some 3 \<and> lookup 0 9 s1 = Some r \<and> read_ref r s1 = Some (0::nat)) \<and>
   (\<exists>r. subscript 0 0 (6::nat) filled_map = Some (r, filled_map) \<and>
      read_ref r filled_map = Some (8::nat)) \<and>
   (\<exists>s2. replace 0 0 6 1 filled_map = Some (True, s2) \<and> lookup_value 0 6 s2 = Some 1 \<and>
      size_tm 0 s2 = Some 2)"
proof -
  have a: "\<exists>r s1. subscript 0 0 (9::nat) filled_map = Some (r, s1) \<and>
      size_tm 0 s1 = Some 3 \<and> lookup 0 9 s1 = Some r \<and> read_ref r s1 = Some (0::nat)"
    using subscript_inserts_default [OF tensors_filled_map, of 0 9 1] by auto
  have b: "(\<exists>r. subscript 0 0 (6::nat) filled_map = Some (r, filled_map) \<and>
      read_ref r filled_map = Some (8::nat)) \<and>
   (\<exists>s2. replace 0 0 6 1 filled_map = Some (True, s2) \<and> lookup_value 0 6 s2 = Some 1 \<and>
      size_tm 0 s2 = Some 2)"
    using subscript_inserts_default [OF tensors_filled_map, of 0 6 1] by auto
  from a b tensors_filled_map show ?thesis by blast
qed

subsection \<open>\<^verbatim>\<open>max_num_elements\<close>\<close>

lemma heap_set_max [simp]: "heap (set_max_num_elements i n s) = heap s"
  by (cases "obj_at s i") (simp_all add: set_max_num_elements_def)

lemma block_at_set_max [simp]: "block_at (set_max_num_elements i n s) p = block_at s p"
  by (simp add: block_at_def)

lemma obj_at_set_max:
  "obj_at (set_max_num_elements i n s) j
     = (if j = i then map_option (\<lambda>t. t\<lparr>max_num_elements := n\<rparr>) (obj_at s i) else obj_at s j)"
proof (cases "obj_at s i")
  case None
  then show ?thesis by (simp add: set_max_num_elements_def)
next
  case (Some t)
  then show ?thesis
    using obj_atD [OF Some] by (simp add: set_max_num_elements_def obj_at_def)
qed

lemma tensors_set_max [simp]: "tensors this (set_max_num_elements i n s) = tensors this s"
proof (cases "this = i")
  case True
  then show ?thesis by (cases "obj_at s i") (simp_all add: tensors_def obj_at_set_max)
next
  case False
  then show ?thesis by (simp add: tensors_def obj_at_set_max)
qed

lemma store_values_set_max:
  "store_values p b vs (set_max_num_elements i n s)
     = set_max_num_elements i n (store_values p b vs s)"
  by (cases "obj_at s i")
     (simp_all add: set_max_num_elements_def obj_at_store_values, simp_all add: store_values_def)

lemma insert_set_max:
  "insert_tm this k v (set_max_num_elements i n s)
     = map_option (apsnd (set_max_num_elements i n)) (insert_tm this k v s)"
proof (cases "tensors this s")
  case None
  then show ?thesis by (simp add: insert_tm_def)
next
  case (Some pb)
  then show ?thesis
    by (cases pb) (simp add: insert_tm_def store_values_set_max split: prod.splits)
qed

lemma erase_set_max:
  "erase this k (set_max_num_elements i n s)
     = map_option (apsnd (set_max_num_elements i n)) (erase this k s)"
proof (cases "tensors this s")
  case None
  then show ?thesis by (simp add: erase_def)
next
  case (Some pb)
  then show ?thesis
    by (cases pb) (simp add: erase_def store_values_set_max split: prod.splits)
qed

lemma subscript_set_max:
  "subscript dflt this k (set_max_num_elements i n s)
     = map_option (apsnd (set_max_num_elements i n)) (subscript dflt this k s)"
proof (cases "tensors this s")
  case None
  then show ?thesis by (simp add: subscript_def)
next
  case (Some pb)
  then show ?thesis
    by (cases pb) (simp add: subscript_def store_values_set_max split: prod.splits)
qed

lemma write_ref_set_max:
  "write_ref r v (set_max_num_elements i n s)
     = map_option (set_max_num_elements i n) (write_ref r v s)"
  by (cases "block_at s (fst r)") (simp_all add: write_ref_def store_values_set_max)

lemma replace_set_max:
  "replace dflt this k v (set_max_num_elements i n s)
     = map_option (apsnd (set_max_num_elements i n)) (replace dflt this k v s)"
proof (cases "subscript dflt this k s")
  case None
  then show ?thesis by (simp add: replace_def subscript_set_max)
next
  case (Some rs)
  obtain r s1 where rs: "rs = (r, s1)" by (cases rs)
  show ?thesis
    by (cases "write_ref r v s1")
       (simp_all add: replace_def subscript_set_max Some rs write_ref_set_max)
qed

lemma read_ref_set_max [simp]: "read_ref r (set_max_num_elements i n s) = read_ref r s"
  by (simp add: read_ref_def)

lemma queries_set_max:
  "find_tm this k (set_max_num_elements i n s) = find_tm this k s"
  "lookup this k (set_max_num_elements i n s) = lookup this k s"
  "lookup_value this k (set_max_num_elements i n s) = lookup_value this k s"
  "size_tm this (set_max_num_elements i n s) = size_tm this s"
  "keys dflt cast this (set_max_num_elements i n s) = keys dflt cast this s"
  by (simp_all add: find_tm_def lookup_def lookup_value_def size_tm_def keys_def)

text \<open>
  C8. Assigning any value \<open>n\<close> to \<^verbatim>\<open>max_num_elements\<close> of any object before a table
  operation gives the result, and the store, that the operation followed by the same
  assignment gives: \<^verbatim>\<open>insert\<close>, \<^verbatim>\<open>replace\<close>, \<^verbatim>\<open>erase\<close>, \<^verbatim>\<open>find\<close>, \<^verbatim>\<open>lookup\<close>,
  \<^verbatim>\<open>size\<close> and \<^verbatim>\<open>keys\<close> do not read the field. So the operations behave for every
  \<open>n\<close> as they do for \<open>- 1\<close>; in particular \<^verbatim>\<open>insert\<close> of an absent key returns true
  and the size grows by one, whatever \<open>n\<close> is.
\<close>

theorem max_num_elements_advisory:
  "insert_tm this k v (set_max_num_elements i n s)
      = map_option (apsnd (set_max_num_elements i n)) (insert_tm this k v s)
   \<and> replace dflt this k v (set_max_num_elements i n s)
      = map_option (apsnd (set_max_num_elements i n)) (replace dflt this k v s)
   \<and> erase this k (set_max_num_elements i n s)
      = map_option (apsnd (set_max_num_elements i n)) (erase this k s)
   \<and> find_tm this k (set_max_num_elements i n s) = find_tm this k s
   \<and> lookup this k (set_max_num_elements i n s) = lookup this k s
   \<and> lookup_value this k (set_max_num_elements i n s) = lookup_value this k s
   \<and> size_tm this (set_max_num_elements i n s) = size_tm this s
   \<and> keys dflt cast this (set_max_num_elements i n s) = keys dflt cast this s
   \<and> (\<forall>p b. tensors this s = Some (p, b) \<and> k \<notin> fst ` set (values_tbl b) \<longrightarrow>
         (\<exists>s1. insert_tm this k v (set_max_num_elements this n s) = Some (True, s1) \<and>
               map_option max_num_elements (obj_at s1 this) = Some n \<and>
               size_tm this s1 = Some (Suc (length (values_tbl b)))))"
proof (intro conjI allI impI)
  fix p b assume a: "tensors this s = Some (p, b) \<and> k \<notin> fst ` set (values_tbl b)"
  let ?s = "set_max_num_elements this n s"
  let ?s1 = "store_values p b (values_tbl b @ [(k, v)]) ?s"
  from a have u: "tensors this ?s = Some (p, b)" by simp
  from a obtain t where t: "obj_at s this = Some t" by (auto simp: tensors_eq_Some)
  have "insert_tm this k v ?s = Some (True, ?s1)"
    using u a by (simp add: insert_tm_absent)
  moreover have "size_tm this ?s1 = Some (Suc (length (values_tbl b)))"
    using tensors_store_values [OF u] by (simp add: size_tm_def)
  moreover have "obj_at ?s1 this = Some (t\<lparr>max_num_elements := n\<rparr>)"
    using t by (simp add: obj_at_store_values obj_at_set_max)
  ultimately show "\<exists>s1. insert_tm this k v ?s = Some (True, s1) \<and>
               map_option max_num_elements (obj_at s1 this) = Some n \<and>
               size_tm this s1 = Some (Suc (length (values_tbl b)))"
    by simp
qed (simp_all add: insert_set_max replace_set_max erase_set_max queries_set_max)

theorem max_num_elements_advisory_witness:
  "tensors 0 filled_map = Some (0, \<lparr>ref_cnt = 1, values_tbl = [(5, 7), (6, 8)]\<rparr>) \<and>
   (\<exists>s1. insert_tm 0 (9::nat) (1::nat) (set_max_num_elements 0 1 filled_map) = Some (True, s1) \<and>
      size_tm 0 s1 = Some 3) \<and>
   size_tm 0 (set_max_num_elements 0 1 filled_map) = Some 2"
proof -
  note t = max_num_elements_advisory [of 0 9 1 0 1 filled_map 0 id]
  have "(9::nat) \<notin> fst ` set (values_tbl \<lparr>ref_cnt = 1, values_tbl = [(5::nat, 7::nat), (6, 8)]\<rparr>)"
    by simp
  from t [THEN conjunct2, THEN conjunct2, THEN conjunct2, THEN conjunct2, THEN conjunct2,
      THEN conjunct2, THEN conjunct2, THEN conjunct2, rule_format,
      OF conjI [OF tensors_filled_map this]]
  have a: "\<exists>s1. insert_tm 0 (9::nat) (1::nat) (set_max_num_elements 0 1 filled_map)
      = Some (True, s1) \<and> size_tm 0 s1 = Some 3"
    by auto
  from t have "size_tm 0 (set_max_num_elements 0 1 filled_map) = size_tm 0 filled_map"
    by blast
  then have b: "size_tm 0 (set_max_num_elements 0 1 filled_map) = Some 2"
    by (simp add: size_tm_def tensors_filled_map)
  from a b tensors_filled_map show ?thesis by blast
qed

subsection \<open>\<^verbatim>\<open>Encode\<close> and \<^verbatim>\<open>Decode\<close>\<close>

lemma decode_entries_encode: "decode_entries (map encode_entry vs) = Some vs"
  by (induction vs) (simp_all add: encode_entry_def named_def)

lemma map_of_snoc:
  "map_of (out @ [e]) k
     = (case map_of out k of None \<Rightarrow> (if k = fst e then Some (snd e) else None)
        | Some v \<Rightarrow> Some v)"
  by (cases e) (auto simp: map_add_def split: option.splits)

lemma Decode_loop_lookup:
  "map_of (Decode_loop es out) k
     = (case map_of out k of None \<Rightarrow> map_of es k | Some v \<Rightarrow> Some v)"
proof (induction es arbitrary: out)
  case Nil
  then show ?case by (simp split: option.splits)
next
  case (Cons e es)
  show ?case
  proof (cases "fst e \<in> fst ` set out")
    case True
    then have "map_of out (fst e) \<noteq> None" by (simp add: map_of_eq_None_iff)
    with True show ?thesis
      by (cases e) (auto simp: Cons.IH fhm_try_emplace_eq split: option.splits)
  next
    case False
    then have "map_of out (fst e) = None" by (simp add: map_of_eq_None_iff)
    with False show ?thesis
      by (cases e) (auto simp: Cons.IH fhm_try_emplace_eq map_of_snoc split: option.splits)
  qed
qed

lemma Decode_loop_map_of: "map_of (Decode_loop es []) = map_of es"
  by (rule ext) (simp add: Decode_loop_lookup)

lemma Decode_loop_distinct:
  "distinct (map fst es) \<Longrightarrow> fst ` set es \<inter> fst ` set out = {} \<Longrightarrow>
   Decode_loop es out = out @ es"
proof (induction es arbitrary: out)
  case Nil
  then show ?case by simp
next
  case (Cons e es)
  have n: "fst e \<notin> fst ` set out" using Cons.prems(2) by auto
  have "distinct (map fst es)" using Cons.prems(1) by simp
  moreover have "fst ` set es \<inter> fst ` set (out @ [e]) = {}"
    using Cons.prems by auto
  ultimately have "Decode_loop es (out @ [e]) = (out @ [e]) @ es" by (rule Cons.IH)
  with n show ?case by (cases e) (simp add: fhm_try_emplace_eq)
qed

lemma Decode_loop_keeps_distinct:
  "distinct (map fst out) \<Longrightarrow> distinct (map fst (Decode_loop es out))"
proof (induction es arbitrary: out)
  case Nil
  then show ?case by simp
next
  case (Cons e es)
  have "distinct (map fst (snd (fhm_try_emplace (fst e) (snd e) out)))"
    using Cons.prems by (auto simp: fhm_try_emplace_eq)
  then show ?case by (simp add: Cons.IH)
qed

lemma Encode_usable:
  assumes u: "tensors m s = Some (p, b)" and t: "obj_at s m = Some t"
  shows "Encode m s =
           Some ([(''element_shape'', Shape (element_shape t)),
                  (''element_dtype'', Dtype (element_dtype t)),
                  (''max_num_elements'', MaxNumElements (max_num_elements t)),
                  (''num_entries'', NumEntries (length (values_tbl b)))]
                 @ map encode_entry (values_tbl b))"
  using assms by (simp add: Encode_def)

lemma decode_payload_encode:
  "decode_payload ([(''element_shape'', Shape sh), (''element_dtype'', Dtype dt),
                    (''max_num_elements'', MaxNumElements n),
                    (''num_entries'', NumEntries (length vs))] @ map encode_entry vs)
     = Some (sh, dt, n, vs)"
  by (simp add: decode_payload_def named_def decode_entries_encode)

lemma Decode_encoded:
  assumes ud: "tensors d s = Some (q, e)" and td: "obj_at s d = Some t'"
  shows "Decode d ([(''element_shape'', Shape sh), (''element_dtype'', Dtype dt),
                    (''max_num_elements'', MaxNumElements n),
                    (''num_entries'', NumEntries (length vs))] @ map encode_entry vs) s
           = Some (True, store_values q e (Decode_loop vs [])
                           (s\<lparr>objs := (objs s)[d := Some (t'\<lparr>element_shape := sh,
                                  element_dtype := dt, max_num_elements := n\<rparr>)]\<rparr>))"
  using assms by (simp add: Decode_def decode_payload_encode del: append.simps)

text \<open>
  C4. For a usable handle \<open>m\<close> and a usable destination \<open>d\<close> (which may or may not
  share the storage of \<open>m\<close>, and whose previous header and table are arbitrary):
  \<^verbatim>\<open>Encode\<close> of \<open>m\<close> is defined, \<^verbatim>\<open>Decode\<close> of the result into \<open>d\<close> succeeds, and
  afterwards the header fields of \<open>d\<close> are those of \<open>m\<close> and every key reads through
  \<open>d\<close> what it read through \<open>m\<close>; when the keys of \<open>m\<close> are unique, as the invariant
  has it, the table of \<open>d\<close> holds exactly the key/value pairs of \<open>m\<close>.
\<close>

theorem Encode_Decode_roundtrip:
  assumes um: "tensors m s = Some (p, b)" and ud: "tensors d s = Some (q, e)"
  shows "\<exists>data s1 vs. Encode m s = Some data \<and> Decode d data s = Some (True, s1) \<and>
           map_option header (obj_at s1 d) = map_option header (obj_at s m) \<and>
           obj_at s1 d \<noteq> None \<and>
           tensors d s1 = Some (q, e\<lparr>values_tbl := vs\<rparr>) \<and>
           map_of vs = map_of (values_tbl b) \<and>
           (\<forall>k. lookup_value d k s1 = lookup_value m k s) \<and>
           (distinct (map fst (values_tbl b)) \<longrightarrow> vs = values_tbl b)"
proof -
  from um obtain t where t: "obj_at s m = Some t" by (auto simp: tensors_eq_Some)
  from ud obtain t' where t': "obj_at s d = Some t'" and pq: "tensors_ptr t' = Some q"
    and e: "block_at s q = Some e" by (auto simp: tensors_eq_Some)
  have dl: "d < length (objs s)" and qlt: "q < length (heap s)"
    using obj_atD [OF t'] block_atD [OF e] by auto
  let ?n = "t'\<lparr>element_shape := element_shape t, element_dtype := element_dtype t,
               max_num_elements := max_num_elements t\<rparr>"
  let ?vs = "Decode_loop (values_tbl b) []"
  let ?s0 = "s\<lparr>objs := (objs s)[d := Some ?n]\<rparr>"
  let ?s1 = "store_values q e ?vs ?s0"
  note enc = Encode_usable [OF um t]
  note dec = Decode_encoded [OF ud t', of "element_shape t" "element_dtype t"
      "max_num_elements t" "values_tbl b"]
  have "obj_at ?s0 d = Some ?n" using dl by (simp add: obj_at_def)
  then have od: "obj_at ?s1 d = Some ?n" by (simp only: obj_at_store_values)
  have h: "map_option header (obj_at ?s1 d) = map_option header (obj_at s m)"
    using od t by (simp add: header_def)
  have u0: "tensors d ?s0 = Some (q, e)"
    using dl pq e by (simp add: tensors_def obj_at_def)
  have u1: "tensors d ?s1 = Some (q, e\<lparr>values_tbl := ?vs\<rparr>)"
    using u0 by (rule tensors_store_values)
  have mo: "map_of ?vs = map_of (values_tbl b)" by (simp add: Decode_loop_map_of)
  have lk: "\<forall>k. lookup_value d k ?s1 = lookup_value m k s"
    by (simp add: lookup_value_eq [OF u1] lookup_value_eq [OF um] mo)
  have di: "distinct (map fst (values_tbl b)) \<longrightarrow> ?vs = values_tbl b"
    using Decode_loop_distinct [of "values_tbl b" "[]"] by simp
  from enc dec h od u1 mo lk di show ?thesis by blast
qed


lemma filled_and_empty_eq:
  "filled_and_empty
     = \<lparr>objs = [Some \<lparr>element_shape = (), element_dtype = (), max_num_elements = - 1,
                      tensors_ptr = Some 0\<rparr>,
                Some \<lparr>element_shape = (), element_dtype = (), max_num_elements = - 1,
                      tensors_ptr = Some 1\<rparr>],
        heap = [Some \<lparr>ref_cnt = 1, values_tbl = [(5, 7), (6, 8)]\<rparr>,
                Some \<lparr>ref_cnt = 1, values_tbl = []\<rparr>],
        deleted = []\<rparr>"
  by (simp add: filled_and_empty_def filled_map_eq ctor_eq)

lemma tensors_filled_and_empty:
  "tensors 0 filled_and_empty = Some (0, \<lparr>ref_cnt = 1, values_tbl = [(5, 7), (6, 8)]\<rparr>)"
  "tensors 1 filled_and_empty = Some (1, \<lparr>ref_cnt = 1, values_tbl = []\<rparr>)"
  by (simp_all add: filled_and_empty_eq tensors_def obj_at_def block_at_def)

theorem Encode_Decode_roundtrip_witness:
  "tensors 0 filled_and_empty = Some (0, \<lparr>ref_cnt = 1, values_tbl = [(5, 7), (6, 8)]\<rparr>) \<and>
   tensors 1 filled_and_empty = Some (1, \<lparr>ref_cnt = 1, values_tbl = []\<rparr>) \<and>
   (\<exists>data s1. Encode 0 filled_and_empty = Some data \<and>
      Decode 1 data filled_and_empty = Some (True, s1) \<and>
      tensors 1 s1 = Some (1, \<lparr>ref_cnt = 1, values_tbl = [(5, 7), (6, 8)]\<rparr>) \<and>
      lookup_value 1 6 s1 = Some 8) \<and>
   (\<exists>data s1. Encode 1 filled_and_empty = Some data \<and>
      Decode 0 data filled_and_empty = Some (True, s1) \<and>
      tensors 0 s1 = Some (0, \<lparr>ref_cnt = 1, values_tbl = []\<rparr>))"
proof -
  note u = tensors_filled_and_empty
  have l: "lookup_value 0 6 filled_and_empty = Some 8"
    by (simp add: lookup_value_eq [OF u(1)])
  have a: "\<exists>data s1. Encode 0 filled_and_empty = Some data \<and>
      Decode 1 data filled_and_empty = Some (True, s1) \<and>
      tensors 1 s1 = Some (1, \<lparr>ref_cnt = 1, values_tbl = [(5, 7), (6, 8)]\<rparr>) \<and>
      lookup_value 1 6 s1 = Some 8"
    using Encode_Decode_roundtrip [OF u(1) u(2)] l by auto
  have b: "\<exists>data s1. Encode 1 filled_and_empty = Some data \<and>
      Decode 0 data filled_and_empty = Some (True, s1) \<and>
      tensors 0 s1 = Some (0, \<lparr>ref_cnt = 1, values_tbl = []\<rparr>)"
    using Encode_Decode_roundtrip [OF u(2) u(1)] by auto
  from a b u show ?thesis by blast
qed

subsection \<open>Every operation keeps the invariant\<close>

lemma distinct_try_emplace:
  "distinct (map fst vs) \<Longrightarrow> distinct (map fst (snd (fhm_try_emplace k v vs)))"
  by (auto simp: fhm_try_emplace_eq)

lemma distinct_remove_nth: "distinct xs \<Longrightarrow> distinct (take i xs @ drop (Suc i) xs)"
  using set_take_disj_set_drop_if_distinct [of xs i "Suc i"] by simp

lemma distinct_erase:
  assumes "distinct (map fst vs)"
  shows "distinct (map fst (snd (fhm_erase k vs)))"
proof (cases "k \<in> fst ` set vs")
  case True
  have "distinct (take (fhm_find k vs) (map fst vs) @ drop (Suc (fhm_find k vs)) (map fst vs))"
    using assms by (rule distinct_remove_nth)
  then show ?thesis using True by (simp add: fhm_erase_present take_map drop_map)
next
  case False
  then show ?thesis using assms by (simp add: fhm_erase_absent)
qed

lemma keys_update_value:
  "i < length vs \<Longrightarrow> map fst (vs[i := (fst (vs ! i), v)]) = map fst vs"
  by (simp add: map_update list_update_same_conv)

lemma wf_values_distinct:
  assumes "store_ok s" "block_at s p = Some b"
  shows "distinct (map fst (values_tbl b))"
  using wf_block_ok [OF assms(1), of p] block_atD [OF assms(2)]
  by (simp add: block_ok_def)

lemma wf_store_tensors:
  assumes wf: "store_ok s" and u: "tensors this s = Some (p, b)"
    and d: "distinct (map fst (values_tbl b)) \<Longrightarrow> distinct (map fst vs)"
  shows "store_ok (store_values p b vs s)"
proof -
  from tensorsD [OF u] have b: "block_at s p = Some b" by auto
  from wf b d [OF wf_values_distinct [OF wf b]] show ?thesis by (rule wf_store_values)
qed

lemma wf_insert:
  assumes wf: "store_ok s" and i: "insert_tm this k v s = Some (r, s')"
  shows "store_ok s'"
proof (cases "tensors this s")
  case None
  with i show ?thesis by (simp add: insert_tm_def)
next
  case (Some pb)
  obtain p b where pb: "pb = (p, b)" by (cases pb)
  have "s' = store_values p b (snd (fhm_try_emplace k v (values_tbl b))) s"
    using i Some pb by (simp add: insert_tm_def split: prod.splits)
  moreover have "store_ok (store_values p b (snd (fhm_try_emplace k v (values_tbl b))) s)"
    using wf Some [unfolded pb] by (rule wf_store_tensors) (rule distinct_try_emplace)
  ultimately show ?thesis by simp
qed

lemma wf_subscript:
  assumes wf: "store_ok s" and i: "subscript dflt this k s = Some (r, s')"
  shows "store_ok s'"
proof (cases "tensors this s")
  case None
  with i show ?thesis by (simp add: subscript_def)
next
  case (Some pb)
  obtain p b where pb: "pb = (p, b)" by (cases pb)
  have "s' = store_values p b (snd (fhm_try_emplace k dflt (values_tbl b))) s"
    using i Some pb by (simp add: subscript_def split: prod.splits)
  moreover have "store_ok (store_values p b (snd (fhm_try_emplace k dflt (values_tbl b))) s)"
    using wf Some [unfolded pb] by (rule wf_store_tensors) (rule distinct_try_emplace)
  ultimately show ?thesis by simp
qed

lemma wf_erase:
  assumes wf: "store_ok s" and i: "erase this k s = Some (n, s')"
  shows "store_ok s'"
proof (cases "tensors this s")
  case None
  with i show ?thesis by (simp add: erase_def)
next
  case (Some pb)
  obtain p b where pb: "pb = (p, b)" by (cases pb)
  have "s' = store_values p b (snd (fhm_erase k (values_tbl b))) s"
    using i Some pb by (simp add: erase_def split: prod.splits)
  moreover have "store_ok (store_values p b (snd (fhm_erase k (values_tbl b))) s)"
    using wf Some [unfolded pb] by (rule wf_store_tensors) (rule distinct_erase)
  ultimately show ?thesis by simp
qed

lemma wf_write_ref:
  assumes wf: "store_ok s" and w: "write_ref r v s = Some s'"
  shows "store_ok s'"
proof (cases "block_at s (fst r)")
  case None
  with w show ?thesis by (simp add: write_ref_def)
next
  case (Some b)
  show ?thesis
  proof (cases "snd r < length (values_tbl b)")
    case True
    then have "s' = store_values (fst r) b
                      ((values_tbl b)[snd r := (fst (values_tbl b ! snd r), v)]) s"
      using w Some by (simp add: write_ref_def)
    moreover have "distinct (map fst ((values_tbl b)[snd r := (fst (values_tbl b ! snd r), v)]))"
      using wf_values_distinct [OF wf Some] True by (simp only: keys_update_value)
    ultimately show ?thesis using wf_store_values [OF wf Some] by simp
  next
    case False
    with w Some show ?thesis by (simp add: write_ref_def)
  qed
qed

lemma wf_replace:
  assumes wf: "store_ok s" and i: "replace dflt this k v s = Some (r, s')"
  shows "store_ok s'"
proof (cases "subscript dflt this k s")
  case None
  with i show ?thesis by (simp add: replace_def)
next
  case (Some rs)
  obtain rf s1 where rs: "rs = (rf, s1)" by (cases rs)
  have wf1: "store_ok s1" using wf Some [unfolded rs] by (rule wf_subscript)
  show ?thesis
  proof (cases "write_ref rf v s1")
    case None
    with i Some rs show ?thesis by (simp add: replace_def)
  next
    case s2: (Some s2)
    with i Some rs have "s' = s2" by (simp add: replace_def)
    with wf_write_ref [OF wf1 s2] show ?thesis by simp
  qed
qed

lemma wf_header_update:
  assumes wf: "store_ok s" and t: "obj_at s i = Some t" and p: "tensors_ptr t' = tensors_ptr t"
  shows "store_ok (s\<lparr>objs := (objs s)[i := Some t']\<rparr>)"
proof (rule wf_objs_same_refs [OF wf])
  fix x
  show "refs (s\<lparr>objs := (objs s)[i := Some t']\<rparr>) x = refs s x"
    using refs_update [of i s "Some t'" x] obj_atD [OF t] p by simp
next
  fix ob assume "ob \<in> set ((objs s)[i := Some t'])"
  moreover have "ptr_ok s (Some t')" using wf_ptr_ok_obj [OF wf t] p by (simp add: ptr_ok_def)
  ultimately show "ptr_ok s ob"
    using set_update_ptr_ok [of "objs s" s "Some t'" ob i] wf_ptr_ok [OF wf] by blast
qed

lemma wf_set_max: "store_ok s \<Longrightarrow> store_ok (set_max_num_elements i n s)"
proof (cases "obj_at s i")
  case None
  then show "store_ok s \<Longrightarrow> ?thesis" by (simp add: set_max_num_elements_def)
next
  case (Some t)
  assume "store_ok s"
  then have "store_ok (s\<lparr>objs := (objs s)[i := Some (t\<lparr>max_num_elements := n\<rparr>)]\<rparr>)"
    using Some by (rule wf_header_update) simp
  then show ?thesis using Some by (simp add: set_max_num_elements_def)
qed

lemma wf_derived_copy:
  assumes wf: "store_ok s" and d: "distinct (map fst vs)"
  shows "store_ok (s\<lparr>heap := heap s @ [Some \<lparr>ref_cnt = 1, values_tbl = vs\<rparr>],
               objs := objs s @ [Some (t\<lparr>tensors_ptr := Some (length (heap s))\<rparr>)]\<rparr>)"
proof -
  let ?q = "length (heap s)"
  let ?s0 = "s\<lparr>heap := heap s @ [Some \<lparr>ref_cnt = 1, values_tbl = []\<rparr>],
               objs := objs s @ [Some (t\<lparr>tensors_ptr := Some ?q\<rparr>)]\<rparr>"
  have wf0: "store_ok ?s0" using wf by (rule wf_alloc) simp
  have b: "block_at ?s0 ?q = Some \<lparr>ref_cnt = 1, values_tbl = []\<rparr>"
    by (simp add: block_at_def)
  have w: "store_ok (store_values ?q \<lparr>ref_cnt = 1, values_tbl = []\<rparr> vs ?s0)"
    using wf0 b d by (rule wf_store_values)
  have e: "store_values ?q \<lparr>ref_cnt = 1, values_tbl = []\<rparr> vs ?s0
             = s\<lparr>heap := heap s @ [Some \<lparr>ref_cnt = 1, values_tbl = vs\<rparr>],
                 objs := objs s @ [Some (t\<lparr>tensors_ptr := Some ?q\<rparr>)]\<rparr>"
    by (simp add: store_values_def)
  from w show ?thesis unfolding e .
qed

lemma derived_copy_SomeD:
  assumes wf: "store_ok s"
  shows "Copy sh0 dt0 a s = Some (c, s') \<Longrightarrow> \<exists>p b. tensors a s = Some (p, b)"
    and "Zeros sh0 dt0 zero a s = Some (c, s') \<Longrightarrow> \<exists>p b. tensors a s = Some (p, b)"
proof -
  have *: "\<exists>p b. tensors a s = Some (p, b)"
    if "obj_at s a = Some t" "tensors_ptr t \<noteq> None" for t
    using that wf_usable [OF wf that(1)] by auto
  have n: "tensors a (snd (TensorMap_ctor sh0 dt0 s)\<lparr>objs := os\<rparr>) = None"
    if "a < length os" "os ! a = Some t" "tensors_ptr t = None" for os t
    using that by (simp add: tensors_def obj_at_def)
  {
    assume c: "Copy sh0 dt0 a s = Some (c, s')"
    show "\<exists>p b. tensors a s = Some (p, b)"
    proof (cases "obj_at s a")
      case None
      with c show ?thesis by (simp add: Copy_def)
    next
      case (Some t)
      show ?thesis
      proof (cases "tensors_ptr t")
        case None
        have "Copy sh0 dt0 a s = None"
          using Some None obj_atD [OF Some]
          by (simp add: Copy_def ctor_eq obj_at_def tensors_def nth_append)
        with c show ?thesis by simp
      next
        case p: (Some p)
        with * [OF Some] show ?thesis by simp
      qed
    qed
  }
  {
    assume c: "Zeros sh0 dt0 zero a s = Some (c, s')"
    show "\<exists>p b. tensors a s = Some (p, b)"
    proof (cases "obj_at s a")
      case None
      with c show ?thesis by (simp add: Zeros_def)
    next
      case (Some t)
      show ?thesis
      proof (cases "tensors_ptr t")
        case None
        have "Zeros sh0 dt0 zero a s = None"
          using Some None obj_atD [OF Some]
          by (simp add: Zeros_def ctor_eq obj_at_def tensors_def nth_append)
        with c show ?thesis by simp
      next
        case p: (Some p)
        with * [OF Some] show ?thesis by simp
      qed
    qed
  }
qed

lemma wf_Copy:
  assumes wf: "store_ok s" and c: "Copy sh0 dt0 a s = Some (c, s')"
  shows "store_ok s'"
proof -
  from derived_copy_SomeD(1) [OF wf c] obtain p b where u: "tensors a s = Some (p, b)" by blast
  then obtain t where t: "obj_at s a = Some t" by (auto simp: tensors_eq_Some)
  have "distinct (map fst (values_tbl b))"
    using wf tensorsD [OF u] by (auto intro: wf_values_distinct)
  then show ?thesis
    using c wf_derived_copy [OF wf, of "values_tbl b" t] by (simp add: Copy_usable [OF u t])
qed

lemma wf_Zeros:
  assumes wf: "store_ok s" and c: "Zeros sh0 dt0 zero a s = Some (c, s')"
  shows "store_ok s'"
proof -
  from derived_copy_SomeD(2) [OF wf c] obtain p b where u: "tensors a s = Some (p, b)" by blast
  then obtain t where t: "obj_at s a = Some t" by (auto simp: tensors_eq_Some)
  have "distinct (map fst (Zeros_loop zero (values_tbl b) []))"
    by (rule Zeros_loop_distinct) simp
  then show ?thesis
    using c wf_derived_copy [OF wf, of "Zeros_loop zero (values_tbl b) []" t]
    by (simp add: Zeros_usable [OF u t])
qed

lemma wf_Decode:
  assumes wf: "store_ok s" and c: "Decode this data s = Some (r, s')"
  shows "store_ok s'"
proof (cases "tensors this s")
  case None
  with c show ?thesis by (cases "obj_at s this") (simp_all add: Decode_def)
next
  case (Some pb)
  obtain p b where pb: "pb = (p, b)" by (cases pb)
  from Some pb obtain t where t: "obj_at s this = Some t" and pt: "tensors_ptr t = Some p"
    and b: "block_at s p = Some b" by (auto simp: tensors_eq_Some)
  show ?thesis
  proof (cases "decode_payload data")
    case None
    with c Some pb t have "s' = s" by (simp add: Decode_def)
    with wf show ?thesis by simp
  next
    case d: (Some x)
    obtain sh dt m kvs where x: "x = (sh, dt, m, kvs)" by (cases x)
    let ?t = "t\<lparr>element_shape := sh, element_dtype := dt, max_num_elements := m\<rparr>"
    let ?s0 = "s\<lparr>objs := (objs s)[this := Some ?t]\<rparr>"
    have s': "s' = store_values p b (Decode_loop kvs []) ?s0"
      using c Some pb t d x by (simp add: Decode_def)
    have wf0: "store_ok ?s0" using wf t by (rule wf_header_update) simp
    have b0: "block_at ?s0 p = Some b" using b by simp
    have "distinct (map fst (Decode_loop kvs []))"
      by (rule Decode_loop_keeps_distinct) simp
    with wf0 b0 show ?thesis unfolding s' by (rule wf_store_values)
  qed
qed

text \<open>The invariant holds in every reachable store.\<close>

lemma reachable_wf: "reachable s \<Longrightarrow> store_ok s"
proof (induction rule: reachable.induct)
  case r_init
  show ?case by (rule wf_init)
next
  case (r_ctor s sh0 dt0)
  then show ?case by (simp add: wf_ctor)
next
  case (r_copy_ctor s other c s')
  from r_copy_ctor.IH r_copy_ctor.hyps(2) show ?case by (rule wf_copy_ctor)
next
  case (r_move_ctor s residue rhs c s')
  from r_move_ctor.IH r_move_ctor.hyps(2) show ?case by (rule wf_move_ctor)
next
  case (r_copy_assign s this rhs s')
  from r_copy_assign.IH r_copy_assign.hyps(2) show ?case by (rule wf_copy_assign)
next
  case (r_move_assign s this rhs s')
  from r_move_assign.IH r_move_assign.hyps(2) show ?case by (rule wf_move_assign)
next
  case (r_dtor s this s')
  from r_dtor.IH r_dtor.hyps(2) show ?case by (rule wf_dtor)
next
  case (r_insert s this k v r s')
  from r_insert.IH r_insert.hyps(2) show ?case by (rule wf_insert)
next
  case (r_subscript s dflt this k rf s')
  from r_subscript.IH r_subscript.hyps(2) show ?case by (rule wf_subscript)
next
  case (r_replace s dflt this k v r s')
  from r_replace.IH r_replace.hyps(2) show ?case by (rule wf_replace)
next
  case (r_erase s this k n s')
  from r_erase.IH r_erase.hyps(2) show ?case by (rule wf_erase)
next
  case (r_Copy s sh0 dt0 this c s')
  from r_Copy.IH r_Copy.hyps(2) show ?case by (rule wf_Copy)
next
  case (r_Zeros s sh0 dt0 zero this c s')
  from r_Zeros.IH r_Zeros.hyps(2) show ?case by (rule wf_Zeros)
next
  case (r_Decode s this data r s')
  from r_Decode.IH r_Decode.hyps(2) show ?case by (rule wf_Decode)
next
  case (r_set_max s i m)
  then show ?case by (simp add: wf_set_max)
qed

end
